theory Spec2Isabelle
  imports Main "HOL-Library.Sublist" "HOL-Library.Word"
begin

section \<open>JavaScript strings and arrays\<close>

text \<open>
  A JavaScript string is modelled as a \<^typ>\<open>string\<close>: the list of its code units, here
  restricted to the code units below 256. The white space of \<open>String.prototype.trim\<close> and of
  the regular expression class \<open>\s\<close> is then TAB, LF, VT, FF, CR, SPACE and NBSP.
\<close>

definition is_space :: "char \<Rightarrow> bool" where
  "is_space c = (c \<in> set [CHR 0x09, CHR 0x0A, CHR 0x0B, CHR 0x0C, CHR 0x0D, CHR 0x20, CHR 0xA0])"

text \<open>\<open>s.trim()\<close>: white space removed at both ends.\<close>

definition trim :: "string \<Rightarrow> string" where
  "trim s = rev (dropWhile is_space (rev (dropWhile is_space s)))"

text \<open>
  \<open>s.split(/\s+/)\<close>: the pieces of \<open>s\<close> between the maximal runs of white space. A run at
  the start or at the end of \<open>s\<close> gives an empty first or last piece, and the empty string
  gives the one piece \<open>''''\<close>.
\<close>

function split_ws :: "string \<Rightarrow> string list" where
  "split_ws s =
     (let w = takeWhile (\<lambda>c. \<not> is_space c) s;
          r = dropWhile (\<lambda>c. \<not> is_space c) s
      in if r = [] then [w] else w # split_ws (dropWhile is_space r))"
  by pat_completeness auto
termination
proof (relation "measure length")
  show "wf (measure length)" by simp
next
  fix s :: string and w r
  assume r: "r = dropWhile (\<lambda>c. \<not> is_space c) s" and ne: "r \<noteq> []"
  have "is_space (hd r)"
    using ne hd_dropWhile [of "\<lambda>c. \<not> is_space c" s] by (simp add: r)
  then have "dropWhile is_space r = dropWhile is_space (tl r)"
    using ne by (cases r) simp_all
  then have "length (dropWhile is_space r) \<le> length (tl r)"
    using length_dropWhile_le [of is_space "tl r"] by simp
  also have "\<dots> < length r"
    using ne by simp
  also have "\<dots> \<le> length s"
    by (simp add: r length_dropWhile_le)
  finally show "(dropWhile is_space r, s) \<in> measure length"
    by simp
qed

declare split_ws.simps [simp del]

text \<open>\<open>s.indexOf(sep)\<close>: the first position at which \<open>sep\<close> occurs in \<open>s\<close>, if any.\<close>

fun index_of :: "string \<Rightarrow> string \<Rightarrow> nat option" where
  "index_of sep [] = (if sep = [] then Some 0 else None)"
| "index_of sep (c # cs) =
     (if prefix sep (c # cs) then Some 0 else map_option Suc (index_of sep cs))"

text \<open>
  \<open>s.split(sep)\<close> for a string separator: the pieces of \<open>s\<close> between the occurrences of
  \<open>sep\<close>, found from left to right without overlap. The empty separator splits \<open>s\<close> into its
  code units.
\<close>

function split_on :: "string \<Rightarrow> string \<Rightarrow> string list" where
  "split_on sep s =
     (if sep = [] then map (\<lambda>c. [c]) s
      else case index_of sep s of
             None \<Rightarrow> [s]
           | Some i \<Rightarrow> take i s # split_on sep (drop (i + length sep) s))"
  by pat_completeness auto
termination
proof (relation "measure (\<lambda>(sep, s). length s)")
  show "wf (measure (\<lambda>(sep, s). length s))" by simp
next
  fix sep s :: string and i
  assume sep: "sep \<noteq> []" and found: "index_of sep s = Some i"
  have bound: "index_of sep t = Some j \<Longrightarrow> j + length sep \<le> length t" for t j
  proof (induction t arbitrary: j)
    case Nil
    then show ?case by (simp split: if_splits)
  next
    case (Cons c cs)
    show ?case
    proof (cases "prefix sep (c # cs)")
      case True
      then show ?thesis using Cons.prems prefix_length_le [of sep "c # cs"] by simp
    next
      case False
      with Cons.prems obtain k where "index_of sep cs = Some k" and "j = Suc k"
        by auto
      with Cons.IH [of k] show ?thesis by simp
    qed
  qed
  from bound [OF found] have "i + length sep \<le> length s" .
  with sep have "length (drop (i + length sep) s) < length s"
    by (cases sep) auto
  then show "((sep, drop (i + length sep) s), (sep, s)) \<in> measure (\<lambda>(sep, s). length s)"
    by simp
qed

declare split_on.simps [simp del]

text \<open>\<open>xs.join(sep)\<close> on an array of strings.\<close>

fun join :: "string \<Rightarrow> string list \<Rightarrow> string" where
  "join sep [] = []"
| "join sep [x] = x"
| "join sep (x # y # ys) = x @ sep @ join sep (y # ys)"

text \<open>
  \<open>xs.slice(start, end)\<close> with integer arguments: a negative index counts from the end, and
  both indices are clamped to the array.
\<close>

definition js_slice :: "int \<Rightarrow> int \<Rightarrow> 'a list \<Rightarrow> 'a list" where
  "js_slice start end xs =
     (let n = int (length xs);
          k = (if start < 0 then max (n + start) 0 else min start n);
          final = (if end < 0 then max (n + end) 0 else min end n)
      in take (nat (final - k)) (drop (nat k) xs))"

section \<open>The parsed page\<close>

text \<open>
  \<open>load(html)\<close> of cheerio gives a document that the program queries with selectors only.
  The document is modelled as the list of its elements in document order, each with its tag
  name, its attributes and its text content (what \<open>$(el).text()\<close> returns).
\<close>

record element =
  tagName :: string
  attribs :: "(string \<times> string) list"
  textContent :: string

type_synonym document = "element list"

text \<open>\<open>$('p')\<close>: the elements with the given tag name, in document order.\<close>

definition select_tag :: "string \<Rightarrow> document \<Rightarrow> element list" where
  "select_tag t doc = filter (\<lambda>el. tagName el = t) doc"

text \<open>\<open>$('meta[name="description"]')\<close>: the elements with the given tag name whose
  attribute \<open>k\<close> has the value \<open>v\<close>, in document order.\<close>

definition select_attr :: "string \<Rightarrow> string \<Rightarrow> string \<Rightarrow> document \<Rightarrow> element list" where
  "select_attr t k v doc =
     filter (\<lambda>el. tagName el = t \<and> map_of (attribs el) k = Some v) doc"

text \<open>\<open>.attr(name)\<close>: the attribute of the first element of the selection; \<open>undefined\<close>
  (here \<open>None\<close>) when the selection is empty or the element has no such attribute.\<close>

definition attr :: "element list \<Rightarrow> string \<Rightarrow> string option" where
  "attr sel name = (case sel of [] \<Rightarrow> None | el # _ \<Rightarrow> map_of (attribs el) name)"

text \<open>\<open>.filter(Boolean)\<close> on an array of strings and \<open>undefined\<close>: keeps the non-empty
  strings.\<close>

fun filter_Boolean :: "string option list \<Rightarrow> string list" where
  "filter_Boolean [] = []"
| "filter_Boolean (None # vs) = filter_Boolean vs"
| "filter_Boolean (Some s # vs) = (if s = [] then filter_Boolean vs else s # filter_Boolean vs)"

text \<open>
  The body of \<open>extractSummary\<close> from \<open>load(html)\<close> on, the same in both source files: the
  meta tags first, then the first paragraph of at least 20 words, cut to two sentences.
\<close>

definition metaTags :: "document \<Rightarrow> string list" where
  "metaTags doc = filter_Boolean
     [attr (select_attr ''meta'' ''name'' ''description'' doc) ''content'',
      attr (select_attr ''meta'' ''property'' ''og:description'' doc) ''content'',
      attr (select_attr ''meta'' ''name'' ''twitter:description'' doc) ''content'']"

definition paragraphs :: "document \<Rightarrow> string list" where
  "paragraphs doc =
     filter (\<lambda>p. 20 \<le> length (split_ws p))
       (map (\<lambda>el. trim (textContent el)) (select_tag ''p'' doc))"

definition summarise :: "document \<Rightarrow> string" where
  "summarise doc =
     (case metaTags doc of
        m # _ \<Rightarrow> m
      | [] \<Rightarrow>
         (case paragraphs doc of
            p # _ \<Rightarrow> join ''. '' (js_slice 0 2 (split_on ''. '' p)) @ ''.''
          | [] \<Rightarrow> []))"

section \<open>Values, configuration and the network\<close>

text \<open>
  The values the handlers work on: what \<open>res.json()\<close> returns, and \<open>undefined\<close> for a
  property that is absent. Numbers are the integers from \<open>-2^53\<close> to \<open>2^53 - 1\<close>
  (identifiers, scores and counts are among them), which a JavaScript number holds exactly
  and prints in full: \<open>JNum n\<close> is the number \<open>sint n\<close>.
\<close>

datatype jsval =
    JUndefined
  | JNull
  | JBool bool
  | JNum "54 word"
  | JStr string
  | JArr "jsval list"
  | JObj "(string \<times> jsval) list"

text \<open>Truthiness, as \<open>!v\<close> and \<open>v || d\<close> test it.\<close>

fun truthy :: "jsval \<Rightarrow> bool" where
  "truthy JUndefined = False"
| "truthy JNull = False"
| "truthy (JBool b) = b"
| "truthy (JNum n) = (n \<noteq> 0)"
| "truthy (JStr s) = (s \<noteq> [])"
| "truthy (JArr xs) = True"
| "truthy (JObj kvs) = True"

text \<open>\<open>item.url\<close>, \<open>item.title\<close>, \<open>item.score\<close> on a value that is neither \<open>null\<close> nor
  \<open>undefined\<close>: the property of an object, \<open>undefined\<close> on anything else.\<close>

fun prop_of :: "jsval \<Rightarrow> string \<Rightarrow> jsval" where
  "prop_of (JObj kvs) k = (case map_of kvs k of Some v \<Rightarrow> v | None \<Rightarrow> JUndefined)"
| "prop_of v k = JUndefined"

text \<open>Decimal digits of a natural number.\<close>

fun dec :: "nat \<Rightarrow> string" where
  "dec n = (if n < 10 then [''0123456789'' ! n] else dec (n div 10) @ [''0123456789'' ! (n mod 10)])"

declare dec.simps [simp del]

text \<open>
  The string a value takes in a template literal (\<open>ToString\<close>); \<open>None\<close> is the
  \<open>TypeError\<close> it throws instead. An object parsed from JSON prints through
  \<open>Object.prototype.toString\<close> unless it has a property \<open>toString\<close> of its own: that
  one is not a function, and neither it nor \<open>valueOf\<close> then gives a primitive. An array
  prints its entries joined by commas, \<open>null\<close> as the empty string, and throws when an
  entry does.
\<close>

fun to_str :: "jsval \<Rightarrow> string option" where
  "to_str JUndefined = Some ''undefined''"
| "to_str JNull = Some ''null''"
| "to_str (JBool b) = Some (if b then ''true'' else ''false'')"
| "to_str (JNum n) = Some (if sint n < 0 then ''-'' @ dec (nat (- sint n)) else dec (nat (sint n)))"
| "to_str (JStr s) = Some s"
| "to_str (JArr xs) =
     map_option (join '','')
       (those (map (\<lambda>x. if x = JUndefined \<or> x = JNull then Some [] else to_str x) xs))"
| "to_str (JObj kvs) = (if map_of kvs ''toString'' = None then Some ''[object Object]'' else None)"

text \<open>
  \<open>parseInt(s, 10)\<close>: leading white space is skipped, a sign is read, then the longest run
  of decimal digits; \<open>None\<close> stands for \<open>NaN\<close>, the result when there is no digit.
\<close>

definition is_digit :: "char \<Rightarrow> bool" where
  "is_digit c = (c \<in> set ''0123456789'')"

definition digits_value :: "string \<Rightarrow> nat" where
  "digits_value ds = foldl (\<lambda>a c. 10 * a + (of_char c - 48)) 0 ds"

definition parseInt :: "string \<Rightarrow> int option" where
  "parseInt inp =
     (let s = dropWhile is_space inp;
          negative = (s \<noteq> [] \<and> hd s = CHR ''-'');
          s' = (if s \<noteq> [] \<and> (hd s = CHR ''+'' \<or> hd s = CHR ''-'') then tl s else s);
          z = takeWhile is_digit s'
      in if z = [] then None
         else Some (if negative then - int (digits_value z) else int (digits_value z)))"

text \<open>
  The module-level constants. \<open>process.env\<close> is a map from names to strings; a variable
  that is not set reads as \<open>undefined\<close>, which \<open>parseInt\<close> turns into the string
  \<open>undefined\<close> first. \<open>TITLE\<close> is read by the digest handler only, \<open>LIMIT\<close> by the per-story
  handler only.
\<close>

type_synonym env = "string \<Rightarrow> string option"

definition env_or :: "env \<Rightarrow> string \<Rightarrow> string \<Rightarrow> string" where
  "env_or env name dflt = (case env name of None \<Rightarrow> dflt | Some v \<Rightarrow> if v = [] then dflt else v)"

definition TOPIC :: "env \<Rightarrow> string" where
  "TOPIC env = env_or env ''NTFY_TOPIC'' ''hn_daily_summaries''"

definition TITLE :: "env \<Rightarrow> string" where
  "TITLE env = env_or env ''NTFY_TITLE'' ''Hacker News Top 10''"

definition TAGS :: "env \<Rightarrow> string" where
  "TAGS env = env_or env ''NTFY_TAGS'' ''news''"

definition LIMIT :: "env \<Rightarrow> int" where
  "LIMIT env =
     (case parseInt (case env ''STORY_LIMIT'' of None \<Rightarrow> ''undefined'' | Some v \<Rightarrow> v) of
        None \<Rightarrow> 10
      | Some n \<Rightarrow> if n = 0 then 10 else n)"

text \<open>
  What the program hands to \<open>fetch\<close>. A request is tagged with the call that makes it:
  \<open>fetch(url)\<close> in \<open>fetchJSON\<close>, \<open>fetch(url, {headers: {'User-Agent': ...}})\<close> in
  \<open>extractSummary\<close>, and the POST to the relay with its headers and body. The address of a
  page and the title of a notification are the values the program passes, whatever they are.
\<close>

record notification =
  topic :: string
  Title :: jsval
  Tags :: string
  Click :: "jsval option"
  body :: string

datatype request =
    FetchJSON string
  | FetchPage jsval
  | Post notification

text \<open>
  What comes back: \<open>fetch\<close> rejects, or resolves to a response with a status, whose body
  read as JSON (\<open>res.json()\<close>) or as a page (\<open>res.text()\<close>, then \<open>load\<close>) is \<open>None\<close> when
  that reading fails.
\<close>

datatype response =
    Rejected
  | Response nat "jsval option" "document option"

definition ok :: "nat \<Rightarrow> bool" where
  "ok status = (200 \<le> status \<and> status \<le> 299)"

text \<open>The exceptions of the program, and what it writes with \<open>console.error\<close>.\<close>

datatype error =
    NetworkError
  | BodyError
  | TypeError
  | Error string

datatype logged =
    LogError error
  | LogSummary error
  | LogNotSent jsval nat

datatype event =
    Fetch request
  | Console logged

text \<open>
  \<open>fetch\<close> answers a call knowing everything that happened before it, so the same address
  may answer differently each time. A run is the list of its events in order: the calls of
  \<open>fetch\<close> and the lines written to the console.
\<close>

type_synonym world = "event list \<Rightarrow> request \<Rightarrow> response"

definition topstories_url :: string where
  "topstories_url = ''https://hacker-news.firebaseio.com/v0/topstories.json''"

text \<open>The address of an item, from the string that \<open>${id}\<close> gave.\<close>

definition item_url :: "string \<Rightarrow> string" where
  "item_url name = ''https://hacker-news.firebaseio.com/v0/item/'' @ name @ ''.json''"

text \<open>What the handler answers its invoker: \<open>res.status(n).json(v)\<close>.\<close>

datatype reply = Reply nat jsval

section \<open>The summary of an article\<close>

text \<open>
  The statements of \<open>extractSummary\<close>, the same in both source files: the page is fetched;
  a response that is not \<open>ok\<close> gives the empty summary; a rejected \<open>fetch\<close> and a body that
  cannot be read throw.
\<close>

definition extractSummary_body :: "world \<Rightarrow> jsval \<Rightarrow> event list \<Rightarrow> (error + string) \<times> event list" where
  "extractSummary_body w url tr =
     (let tr1 = tr @ [Fetch (FetchPage url)]
      in case w tr (FetchPage url) of
           Rejected \<Rightarrow> (Inl NetworkError, tr1)
         | Response status js page \<Rightarrow>
             if \<not> ok status then (Inr [], tr1)
             else case page of
                    None \<Rightarrow> (Inl BodyError, tr1)
                  | Some doc \<Rightarrow> (Inr (summarise doc), tr1))"

text \<open>\<open>src/api/hn.js\<close> (the digest handler): \<open>extractSummary\<close> is these statements as they
  are, so what they throw reaches the caller.\<close>

definition hn_extractSummary :: "world \<Rightarrow> jsval \<Rightarrow> event list \<Rightarrow> (error + string) \<times> event list" where
  "hn_extractSummary w url tr = extractSummary_body w url tr"

text \<open>The per-story handler: \<open>extractSummary\<close> wraps them in \<open>try\<close>, and the \<open>catch\<close> logs
  the exception and returns the empty string.\<close>

definition extractSummary :: "world \<Rightarrow> jsval \<Rightarrow> event list \<Rightarrow> string \<times> event list" where
  "extractSummary w url tr =
     (case extractSummary_body w url tr of
        (Inl err, tr1) \<Rightarrow> ([], tr1 @ [Console (LogSummary err)])
      | (Inr s, tr1) \<Rightarrow> (s, tr1))"

section \<open>The per-story handler\<close>

text \<open>\<open>fetchJSON\<close>: every failure is caught, logged and turned into \<open>null\<close>.\<close>

definition fetchJSON :: "world \<Rightarrow> string \<Rightarrow> event list \<Rightarrow> jsval \<times> event list" where
  "fetchJSON w url tr =
     (let tr1 = tr @ [Fetch (FetchJSON url)]
      in case w tr (FetchJSON url) of
           Rejected \<Rightarrow> (JNull, tr1 @ [Console (LogError NetworkError)])
         | Response status js page \<Rightarrow>
             if \<not> ok status
             then (JNull, tr1 @ [Console (LogError
                     (Error (''Failed to fetch '' @ url @ '': '' @ dec status)))])
             else case js of
                    None \<Rightarrow> (JNull, tr1 @ [Console (LogError BodyError)])
                  | Some v \<Rightarrow> (v, tr1))"

record story =
  title :: jsval
  summary :: string
  url :: jsval

text \<open>
  \<open>sendNotification\<close>. The body is built first, and its template literal throws when the
  url has no string form; then comes one POST to the relay, with the title, the tags and
  the click address in its headers. A rejected \<open>fetch\<close> throws; a response that is not \<open>ok\<close>
  is logged, in a line whose template literal throws when the title has no string form.
\<close>

definition story_body :: "story \<Rightarrow> string option" where
  "story_body st = map_option (\<lambda>u. summary st @ [CHR 0x0A] @ u) (to_str (url st))"

definition story_post :: "env \<Rightarrow> story \<Rightarrow> string \<Rightarrow> request" where
  "story_post env st b =
     Post \<lparr>topic = TOPIC env, Title = title st, Tags = TAGS env, Click = Some (url st), body = b\<rparr>"

definition sendNotification ::
    "env \<Rightarrow> world \<Rightarrow> story \<Rightarrow> event list \<Rightarrow> (error + unit) \<times> event list" where
  "sendNotification env w st tr =
     (case story_body st of
        None \<Rightarrow> (Inl TypeError, tr)
      | Some b \<Rightarrow>
          (let tr1 = tr @ [Fetch (story_post env st b)]
           in case w tr (story_post env st b) of
                Rejected \<Rightarrow> (Inl NetworkError, tr1)
              | Response status js page \<Rightarrow>
                  if \<not> ok status
                  then (case to_str (title st) of
                          None \<Rightarrow> (Inl TypeError, tr1)
                        | Some t \<Rightarrow> (Inr (), tr1 @ [Console (LogNotSent (title st) status)]))
                  else (Inr (), tr1)))"

text \<open>
  One pass of the \<open>for\<close> loop of \<open>handler\<close>, on the counter \<open>sent\<close> and the run so far. The
  address of the item is a template literal evaluated in the loop itself, so it throws out
  of the loop when the identifier has no string form. What \<open>sendNotification\<close> throws is
  caught in the loop and logged, and the story is counted all the same.
\<close>

definition step ::
    "env \<Rightarrow> world \<Rightarrow> jsval \<Rightarrow> nat \<times> event list \<Rightarrow> (error + nat) \<times> event list" where
  "step env w ident st =
     (case st of (sent, tr) \<Rightarrow>
        (case to_str ident of
           None \<Rightarrow> (Inl TypeError, tr)
         | Some name \<Rightarrow>
             (case fetchJSON w (item_url name) tr of (item, tr1) \<Rightarrow>
                if \<not> truthy item \<or> \<not> truthy (prop_of item ''url'') then (Inr sent, tr1)
                else
                  (case extractSummary w (prop_of item ''url'') tr1 of (s, tr2) \<Rightarrow>
                     (case sendNotification env w
                             \<lparr>title = prop_of item ''title'',
                              summary = (if s = [] then ''(No summary available)'' else s),
                              url = prop_of item ''url''\<rparr> tr2 of
                        (Inl err, tr3) \<Rightarrow> (Inr (sent + 1), tr3 @ [Console (LogError err)])
                      | (Inr u, tr3) \<Rightarrow> (Inr (sent + 1), tr3))))))"

fun loop ::
    "env \<Rightarrow> world \<Rightarrow> jsval list \<Rightarrow> nat \<times> event list \<Rightarrow> (error + nat) \<times> event list" where
  "loop env w [] st = (Inr (fst st), snd st)"
| "loop env w (ident # idents) st =
     (case step env w ident st of
        (Inl err, tr1) \<Rightarrow> (Inl err, tr1)
      | (Inr sent, tr1) \<Rightarrow> loop env w idents (sent, tr1))"

text \<open>
  \<open>handler\<close> of the per-story file. A payload that is not an array is answered with 500 at
  once. What the loop throws reaches the outer \<open>catch\<close>, which logs it and answers 500.
  The counter is below \<open>2^32\<close>, the length of an array, so it is a number of the model.
\<close>

definition handler :: "env \<Rightarrow> world \<Rightarrow> reply \<times> event list" where
  "handler env w =
     (case fetchJSON w topstories_url [] of (ids, tr) \<Rightarrow>
        (case ids of
           JArr xs \<Rightarrow>
             (case loop env w (js_slice 0 (LIMIT env) xs) (0, tr) of
                (Inl err, tr') \<Rightarrow>
                  (Reply 500 (JObj [(''error'', JStr ''Internal Server Error'')]),
                   tr' @ [Console (LogError err)])
              | (Inr sent, tr') \<Rightarrow>
                  (Reply 200 (JObj [(''success'', JBool True), (''sent'', JNum (of_nat sent))]),
                   tr'))
         | _ \<Rightarrow> (Reply 500 (JObj [(''error'', JStr ''Failed to fetch top stories'')]), tr)))"

section \<open>The digest handler\<close>

text \<open>\<open>fetchJSON\<close> of \<open>src/api/hn.js\<close>: nothing is caught.\<close>

definition hn_fetchJSON :: "world \<Rightarrow> string \<Rightarrow> event list \<Rightarrow> (error + jsval) \<times> event list" where
  "hn_fetchJSON w addr tr =
     (let tr1 = tr @ [Fetch (FetchJSON addr)]
      in case w tr (FetchJSON addr) of
           Rejected \<Rightarrow> (Inl NetworkError, tr1)
         | Response status js page \<Rightarrow>
             if \<not> ok status then (Inl (Error (''Failed to fetch '' @ addr)), tr1)
             else case js of
                    None \<Rightarrow> (Inl BodyError, tr1)
                  | Some v \<Rightarrow> (Inr v, tr1))"

record hn_story = story +
  score :: jsval

text \<open>
  \<open>ids.slice(0, 10)\<close> followed by \<open>for (const id of topIds)\<close>, on whatever the list request
  returned: an array gives its first ten entries, a string its first ten characters, and
  any other value has no \<open>slice\<close> method, so the call throws a \<open>TypeError\<close>.
\<close>

definition hn_topIds :: "jsval \<Rightarrow> error + jsval list" where
  "hn_topIds ids =
     (case ids of
        JArr xs \<Rightarrow> Inr (js_slice 0 10 xs)
      | JStr s \<Rightarrow> Inr (map (\<lambda>c. JStr [c]) (js_slice 0 10 s))
      | _ \<Rightarrow> Inl TypeError)"

text \<open>One pass of the \<open>for\<close> loop, on the array \<open>stories\<close> and the run so far. The template
  literal of the item address, \<open>fetchJSON\<close> and \<open>extractSummary\<close> may each throw.\<close>

definition hn_step ::
    "world \<Rightarrow> jsval \<Rightarrow> hn_story list \<times> event list \<Rightarrow> (error + hn_story list) \<times> event list" where
  "hn_step w ident st =
     (case st of (stories, tr) \<Rightarrow>
        (case to_str ident of
           None \<Rightarrow> (Inl TypeError, tr)
         | Some name \<Rightarrow>
             (case hn_fetchJSON w (item_url name) tr of
                (Inl err, tr1) \<Rightarrow> (Inl err, tr1)
              | (Inr item, tr1) \<Rightarrow>
                  if \<not> truthy item \<or> \<not> truthy (prop_of item ''url'') then (Inr stories, tr1)
                  else
                    (case hn_extractSummary w (prop_of item ''url'') tr1 of
                       (Inl err, tr2) \<Rightarrow> (Inl err, tr2)
                     | (Inr s, tr2) \<Rightarrow>
                         (Inr (stories @
                            [\<lparr>title = prop_of item ''title'',
                              summary = (if s = [] then ''(No summary available)'' else s),
                              url = prop_of item ''url'',
                              score = (if truthy (prop_of item ''score'')
                                       then prop_of item ''score'' else JNum 0)\<rparr>]), tr2)))))"

fun hn_loop ::
    "world \<Rightarrow> jsval list \<Rightarrow> hn_story list \<times> event list \<Rightarrow> (error + hn_story list) \<times> event list" where
  "hn_loop w [] st = (Inr (fst st), snd st)"
| "hn_loop w (ident # idents) st =
     (case hn_step w ident st of
        (Inl err, tr1) \<Rightarrow> (Inl err, tr1)
      | (Inr stories, tr1) \<Rightarrow> hn_loop w idents (stories, tr1))"

text \<open>
  The text of the digest, built by \<open>stories.forEach\<close>; \<open>None\<close> when one of its template
  literals throws, the title, the score or the url of a story having no string form.
\<close>

fun digest :: "nat \<Rightarrow> hn_story list \<Rightarrow> string option" where
  "digest idx [] = Some []"
| "digest idx (st # sts) =
     (case (to_str (title st), to_str (score st), to_str (url st)) of
        (Some t, Some sc, Some u) \<Rightarrow>
          map_option
            (\<lambda>rest. dec (idx + 1) @ ''. '' @ t @ '' (score: '' @ sc @ '')'' @ [CHR 0x0A]
                     @ ''   '' @ summary st @ [CHR 0x0A]
                     @ ''   '' @ u @ [CHR 0x0A, CHR 0x0A]
                     @ rest)
            (digest (idx + 1) sts)
      | _ \<Rightarrow> None)"

text \<open>Steps 1 and 2 of the \<open>try\<close> block of \<open>handler\<close>: the list is fetched and cut, and
  each story is fetched and summarised.\<close>

definition hn_stories :: "world \<Rightarrow> (error + hn_story list) \<times> event list" where
  "hn_stories w =
     (case hn_fetchJSON w topstories_url [] of
        (Inl err, tr) \<Rightarrow> (Inl err, tr)
      | (Inr ids, tr) \<Rightarrow>
          (case hn_topIds ids of
             Inl err \<Rightarrow> (Inl err, tr)
           | Inr topIds \<Rightarrow> hn_loop w topIds ([], tr)))"

text \<open>Steps 3 and 4: the digest is composed, then sent in one POST, whose response is not
  looked at. The result is the number of stories, or the exception that ended the block.\<close>

definition digest_post :: "env \<Rightarrow> string \<Rightarrow> request" where
  "digest_post env b =
     Post \<lparr>topic = TOPIC env, Title = JStr (TITLE env), Tags = TAGS env, Click = None, body = b\<rparr>"

definition hn_try :: "env \<Rightarrow> world \<Rightarrow> (error + nat) \<times> event list" where
  "hn_try env w =
     (case hn_stories w of
        (Inl err, tr1) \<Rightarrow> (Inl err, tr1)
      | (Inr stories, tr1) \<Rightarrow>
          (case digest 0 stories of
             None \<Rightarrow> (Inl TypeError, tr1)
           | Some b \<Rightarrow>
               (case w tr1 (digest_post env b) of
                  Rejected \<Rightarrow> (Inl NetworkError, tr1 @ [Fetch (digest_post env b)])
                | Response status js page \<Rightarrow>
                    (Inr (length stories), tr1 @ [Fetch (digest_post env b)]))))"

definition hn_handler :: "env \<Rightarrow> world \<Rightarrow> reply \<times> event list" where
  "hn_handler env w =
     (case hn_try env w of
        (Inl err, tr) \<Rightarrow>
          (Reply 500 (JObj [(''error'', JStr ''Failed to fetch or send stories'')]),
           tr @ [Console (LogError err)])
      | (Inr n, tr) \<Rightarrow>
          (Reply 200 (JObj [(''success'', JBool True), (''count'', JNum (of_nat n))]), tr))"

section \<open>Notions of the specification\<close>

text \<open>
  The whitespace-delimited words of a text: its maximal runs of characters that are not
  white space.
\<close>

function ws_words :: "string \<Rightarrow> string list" where
  "ws_words s =
     (let r = dropWhile is_space s
      in if r = [] then []
         else takeWhile (\<lambda>c. \<not> is_space c) r # ws_words (dropWhile (\<lambda>c. \<not> is_space c) r))"
  by pat_completeness auto
termination
proof (relation "measure length")
  show "wf (measure length)" by simp
next
  fix s r :: string
  assume r: "r = dropWhile is_space s" and ne: "r \<noteq> []"
  have "\<not> is_space (hd r)"
    using ne hd_dropWhile [of is_space s] by (simp add: r)
  then have "dropWhile (\<lambda>c. \<not> is_space c) r = dropWhile (\<lambda>c. \<not> is_space c) (tl r)"
    using ne by (cases r) simp_all
  then have "length (dropWhile (\<lambda>c. \<not> is_space c) r) \<le> length (tl r)"
    using length_dropWhile_le [of "\<lambda>c. \<not> is_space c" "tl r"] by simp
  also have "\<dots> < length r"
    using ne by simp
  also have "\<dots> \<le> length s"
    by (simp add: r length_dropWhile_le)
  finally show "(dropWhile (\<lambda>c. \<not> is_space c) r, s) \<in> measure length"
    by simp
qed

declare ws_words.simps [simp del]

text \<open>The page contains a tag \<open><meta k="v" content="x">\<close>.\<close>

definition has_meta :: "string \<Rightarrow> string \<Rightarrow> string \<Rightarrow> document \<Rightarrow> bool" where
  "has_meta k v x doc =
     list_ex (\<lambda>el. tagName el = ''meta'' \<and> map_of (attribs el) k = Some v \<and>
                   map_of (attribs el) ''content'' = Some x) doc"

text \<open>The \<open>content\<close> attribute of the first tag \<open><meta k="v">\<close> of the page, in document
  order.\<close>

definition first_meta :: "string \<Rightarrow> string \<Rightarrow> document \<Rightarrow> string option" where
  "first_meta k v doc =
     (case List.find (\<lambda>el. tagName el = ''meta'' \<and> map_of (attribs el) k = Some v) doc of
        None \<Rightarrow> None
      | Some el \<Rightarrow> map_of (attribs el) ''content'')"

text \<open>The page has a description meta tag, of one of the three kinds, with a non-empty
  \<open>content\<close>.\<close>

definition described :: "document \<Rightarrow> bool" where
  "described doc =
     list_ex (\<lambda>el. tagName el = ''meta'' \<and>
                (map_of (attribs el) ''name'' = Some ''description'' \<or>
                 map_of (attribs el) ''property'' = Some ''og:description'' \<or>
                 map_of (attribs el) ''name'' = Some ''twitter:description'') \<and>
                (case map_of (attribs el) ''content'' of None \<Rightarrow> False | Some x \<Rightarrow> x \<noteq> [])) doc"

text \<open>The trimmed text of the first paragraph, in document order, that has at least 20
  whitespace-delimited words.\<close>

definition first_prose :: "document \<Rightarrow> string option" where
  "first_prose doc =
     List.find (\<lambda>t. 20 \<le> length (ws_words t))
       (map (\<lambda>el. trim (textContent el)) (filter (\<lambda>el. tagName el = ''p'') doc))"

text \<open>The page that a successful fetch of the address gives at this point of the run.\<close>

definition fetched_page :: "world \<Rightarrow> event list \<Rightarrow> jsval \<Rightarrow> document option" where
  "fetched_page w tr u =
     (case w tr (FetchPage u) of
        Rejected \<Rightarrow> None
      | Response status js page \<Rightarrow> if ok status then page else None)"

section \<open>Example pages\<close>

definition meta_tag :: "string \<Rightarrow> string \<Rightarrow> string \<Rightarrow> element" where
  "meta_tag k v x = \<lparr>tagName = ''meta'', attribs = [(k, v), (''content'', x)], textContent = []\<rparr>"

definition p_tag :: "string \<Rightarrow> element" where
  "p_tag t = \<lparr>tagName = ''p'', attribs = [], textContent = t\<rparr>"

text \<open>Every request is answered with status 200 and the given page.\<close>

definition serve :: "document \<Rightarrow> world" where
  "serve doc tr req = Response 200 None (Some doc)"

definition sentence_A :: string where
  "sentence_A = ''One two three four five six seven eight nine ten''"

definition sentence_B :: string where
  "sentence_B = ''Eleven twelve thirteen fourteen fifteen sixteen seventeen eighteen nineteen twenty''"

definition sentence_C :: string where
  "sentence_C = ''Alpha beta gamma delta epsilon''"

definition page_described :: document where
  "page_described =
     [meta_tag ''property'' ''og:description'' ''From the graph'',
      meta_tag ''name'' ''description'' ''X'',
      p_tag (sentence_A @ ''. '' @ sentence_B @ ''. '' @ sentence_C @ ''.'')]"

definition page_og :: document where
  "page_og =
     [meta_tag ''name'' ''description'' [],
      meta_tag ''name'' ''twitter:description'' ''From the card'',
      meta_tag ''property'' ''og:description'' ''From the graph'']"

definition page_duplicate :: document where
  "page_duplicate =
     [meta_tag ''name'' ''description'' [],
      meta_tag ''name'' ''description'' ''X'',
      meta_tag ''property'' ''og:description'' ''From the graph'']"

definition page_later :: document where
  "page_later =
     [meta_tag ''name'' ''description'' [],
      meta_tag ''name'' ''description'' ''LATER'',
      p_tag (sentence_A @ ''. '' @ sentence_B @ ''. '' @ sentence_C @ ''.'')]"

definition page_prose :: document where
  "page_prose =
     [meta_tag ''name'' ''description'' [],
      p_tag ''Too short. To count.'',
      p_tag ([CHR 0x0A] @ ''  '' @ sentence_A @ ''. '' @ sentence_B @ ''. '' @ sentence_C @ ''.'' @ [CHR 0x0A]),
      p_tag (sentence_B @ '' '' @ sentence_A @ '' '' @ sentence_B)]"

definition page_one_sentence :: document where
  "page_one_sentence =
     [p_tag (sentence_A @ '' '' @ sentence_B @ '', and so on, etc.'')]"

definition page_plain :: document where
  "page_plain = [p_tag ''Too short. To count.'', p_tag sentence_A]"

section \<open>Notions of the specification: runs\<close>

text \<open>What a run requested, sent and logged, each in the order of the run.\<close>

definition json_fetches :: "event list \<Rightarrow> string list" where
  "json_fetches tr = [a. Fetch (FetchJSON a) \<leftarrow> tr]"

definition page_fetches :: "event list \<Rightarrow> jsval list" where
  "page_fetches tr = [u. Fetch (FetchPage u) \<leftarrow> tr]"

definition posts :: "event list \<Rightarrow> notification list" where
  "posts tr = [n. Fetch (Post n) \<leftarrow> tr]"

definition console :: "event list \<Rightarrow> logged list" where
  "console tr = [l. Console l \<leftarrow> tr]"

text \<open>The JSON that a successful request of the address gives at this point of the run.\<close>

definition fetched_json :: "world \<Rightarrow> event list \<Rightarrow> string \<Rightarrow> jsval option" where
  "fetched_json w tr a =
     (case w tr (FetchJSON a) of
        Rejected \<Rightarrow> None
      | Response status js page \<Rightarrow> if ok status then js else None)"

text \<open>The payload of the story-list request, when that request succeeds.\<close>

definition listed :: "world \<Rightarrow> jsval option" where
  "listed w = fetched_json w [] topstories_url"

text \<open>The identifier has a string form, and the metadata request of the story succeeds
  and gives an item with a url.\<close>

definition has_url :: "world \<Rightarrow> event list \<Rightarrow> jsval \<Rightarrow> bool" where
  "has_url w tr ident =
     (case to_str ident of
        None \<Rightarrow> False
      | Some name \<Rightarrow>
          (case fetched_json w tr (item_url name) of
             None \<Rightarrow> False
           | Some item \<Rightarrow> truthy item \<and> truthy (prop_of item ''url'')))"

text \<open>The string forms of the identifiers of a list, up to the first identifier that has
  none.\<close>

fun printed :: "jsval list \<Rightarrow> string list" where
  "printed [] = []"
| "printed (v # vs) = (case to_str v of None \<Rightarrow> [] | Some name \<Rightarrow> name # printed vs)"

section \<open>Example runs\<close>

text \<open>
  A network that does not change during the run: the story list, the answer to each item
  address (404 for any other), the answer to every page request and the answer of the relay.
\<close>

definition answers :: "response \<Rightarrow> (string \<times> response) list \<Rightarrow> response \<Rightarrow> response \<Rightarrow> world" where
  "answers list items page relay tr req =
     (case req of
        FetchJSON a \<Rightarrow>
          if a = topstories_url then list
          else (case map_of items a of None \<Rightarrow> Response 404 None None | Some r \<Rightarrow> r)
      | FetchPage u \<Rightarrow> page
      | Post n \<Rightarrow> relay)"

definition json_ok :: "jsval \<Rightarrow> response" where
  "json_ok v = Response 200 (Some v) None"

definition link_item :: jsval where
  "link_item = JObj [(''title'', JStr ''A story''), (''url'', JStr ''http://example.org/''),
                     (''score'', JNum 42)]"

definition text_item :: jsval where
  "text_item = JObj [(''title'', JStr ''Ask: a question''), (''score'', JNum 7)]"

definition limit_two :: env where
  "limit_two = [''STORY_LIMIT'' \<mapsto> ''2'']"

definition world_three :: world where
  "world_three =
     answers (json_ok (JArr [JNum 1, JNum 2, JNum 3]))
       [(item_url ''1'', json_ok link_item), (item_url ''2'', json_ok link_item),
        (item_url ''3'', json_ok link_item)]
       (Response 200 None (Some page_described)) (Response 200 None None)"

definition world_eleven :: world where
  "world_eleven =
     answers (json_ok (JArr (map JNum [1, 2, 3, 4, 5, 6, 7, 8, 9, 10, 11]))) []
       Rejected (Response 200 None None)"

definition limit_zero :: env where
  "limit_zero = [''STORY_LIMIT'' \<mapsto> ''0'']"

definition limit_word :: env where
  "limit_word = [''STORY_LIMIT'' \<mapsto> ''ten'']"

definition world_page_down :: world where
  "world_page_down =
     answers (json_ok (JArr [JNum 1])) [(item_url ''1'', json_ok link_item)]
       Rejected (Response 200 None None)"

definition world_string :: world where
  "world_string =
     answers (json_ok (JStr ''a'')) [(item_url ''a'', json_ok JNull)]
       Rejected (Response 200 None None)"

definition world_item_down :: world where
  "world_item_down =
     answers (json_ok (JArr [JNum 1])) [(item_url ''1'', Rejected)]
       Rejected (Response 200 None None)"

definition world_relay_down :: world where
  "world_relay_down =
     answers (json_ok (JArr [JNum 1, JNum 2]))
       [(item_url ''1'', json_ok link_item), (item_url ''2'', json_ok link_item)]
       (Response 200 None (Some page_described)) (Response 500 None None)"

definition world_mixed :: world where
  "world_mixed =
     answers (json_ok (JArr [JNum 1, JNum 2, JNum 3]))
       [(item_url ''1'', json_ok text_item), (item_url ''2'', Response 503 None None),
        (item_url ''3'', json_ok link_item)]
       (Response 200 None (Some page_described)) (Response 200 None None)"

definition link_story :: hn_story where
  "link_story = \<lparr>title = JStr ''A story'', summary = ''X'', url = JStr ''http://example.org/'',
                  score = JNum 42\<rparr>"


text \<open>A list whose second identifier is an object with a property \<open>toString\<close>.\<close>

definition world_object_id :: world where
  "world_object_id =
     answers (json_ok (JArr [JNum 1, JObj [(''toString'', JNum 1)], JNum 3]))
       [(item_url ''1'', json_ok link_item), (item_url ''3'', json_ok link_item)]
       (Response 200 None (Some page_described)) (Response 200 None None)"

text \<open>An item whose url is an object with a property \<open>toString\<close>.\<close>

definition odd_item :: jsval where
  "odd_item = JObj [(''title'', JStr ''An odd story''), (''url'', JObj [(''toString'', JNum 1)])]"

definition world_odd_url :: world where
  "world_odd_url =
     answers (json_ok (JArr [JNum 1])) [(item_url ''1'', json_ok odd_item)]
       Rejected (Response 200 None None)"

section \<open>Strings: splitting and words\<close>

lemma js_slice_take: "0 \<le> n \<Longrightarrow> js_slice 0 n xs = take (nat n) xs"
  by (simp add: js_slice_def Let_def min_def)

lemma index_of_None: "sep \<noteq> [] \<Longrightarrow> \<not> sublist sep s \<Longrightarrow> index_of sep s = None"
  by (induction s) (auto simp: sublist_Cons_right)

lemma split_on_no_sep: "sep \<noteq> [] \<Longrightarrow> \<not> sublist sep s \<Longrightarrow> split_on sep s = [s]"
  by (simp add: split_on.simps index_of_None)

text \<open>A separator that does not begin inside \<open>a\<close> is first found right after \<open>a\<close>.\<close>

lemma index_of_first:
  "sep \<noteq> [] \<Longrightarrow> \<not> sublist sep (a @ butlast sep) \<Longrightarrow>
   index_of sep (a @ sep @ rest) = Some (length a)"
proof (induction a)
  case Nil
  then show ?case by (cases sep) simp_all
next
  case (Cons c cs)
  have "\<not> prefix sep ((c # cs) @ sep @ rest)"
  proof
    assume p: "prefix sep ((c # cs) @ sep @ rest)"
    define X where "X = (c # cs) @ butlast sep"
    have eq: "(c # cs) @ sep @ rest = X @ (last sep # rest)"
      using Cons.prems(1) by (simp add: X_def)
    have len: "length sep \<le> length X"
      by (simp add: X_def)
    from p obtain zs where "X @ (last sep # rest) = sep @ zs"
      unfolding eq by (auto simp: prefix_def)
    then have "take (length sep) (X @ (last sep # rest)) = sep"
      by simp
    with len have "take (length sep) X = sep"
      by simp
    then have "prefix sep X"
      by (metis take_is_prefix)
    then have "sublist sep ((c # cs) @ butlast sep)"
      unfolding X_def by (rule prefix_imp_sublist)
    with Cons.prems(2) show False by simp
  qed
  moreover have "\<not> sublist sep (cs @ butlast sep)"
    using Cons.prems(2) by (auto simp: sublist_Cons_right)
  ultimately show ?case using Cons by simp
qed

lemma split_on_first:
  "sep \<noteq> [] \<Longrightarrow> \<not> sublist sep (a @ butlast sep) \<Longrightarrow>
   split_on sep (a @ sep @ rest) = a # split_on sep rest"
  by (subst split_on.simps) (simp add: index_of_first)

lemma dot_space_butlast: "\<not> sublist ''. '' a \<Longrightarrow> \<not> sublist ''. '' (a @ butlast ''. '')"
  using snoc_sublist_snoc [of "''.''" "CHR '' ''" a "CHR ''.''"] by simp

lemma split_on_sentence:
  assumes "\<not> sublist ''. '' a"
  shows "split_on ''. '' (a @ ''. '' @ rest) = a # split_on ''. '' rest"
  using assms by (intro split_on_first dot_space_butlast) simp_all

lemma split_on_nonempty: "sep \<noteq> [] \<Longrightarrow> split_on sep s \<noteq> []"
  by (subst split_on.simps) (auto split: option.splits)

lemma last_dropWhile: "dropWhile P xs \<noteq> [] \<Longrightarrow> last (dropWhile P xs) = last xs"
  by (induction xs) (auto split: if_splits)

text \<open>A trimmed text neither starts nor ends with white space.\<close>

lemma trim_ends:
  "trim s = [] \<or> (\<not> is_space (hd (trim s)) \<and> \<not> is_space (last (trim s)))"
proof (cases "trim s = []")
  case True
  then show ?thesis by simp
next
  case False
  define t where "t = dropWhile is_space s"
  define u where "u = dropWhile is_space (rev t)"
  have ts: "trim s = rev u"
    by (simp add: trim_def t_def u_def)
  with False have u: "u \<noteq> []"
    by simp
  then have t: "t \<noteq> []"
    by (auto simp: u_def)
  have "\<not> is_space (hd u)"
    using u hd_dropWhile [of is_space "rev t"] by (simp add: u_def)
  then have l: "\<not> is_space (last (trim s))"
    using u by (simp add: ts last_rev)
  have "last u = last (rev t)"
    using u unfolding u_def by (rule last_dropWhile)
  also have "\<dots> = hd t"
    using t by (simp add: last_rev)
  finally have "hd (trim s) = hd t"
    using u by (simp add: ts hd_rev)
  moreover have "\<not> is_space (hd t)"
    using t hd_dropWhile [of is_space s] by (simp add: t_def)
  ultimately show ?thesis
    using l by simp
qed

lemma ws_words_Nil: "ws_words [] = []"
  by (simp add: ws_words.simps)

lemma ws_words_dropWhile: "ws_words (dropWhile is_space s) = ws_words s"
  by (subst ws_words.simps, subst (2) ws_words.simps) simp

text \<open>On a text without white space at its ends, \<open>split(/\s+/)\<close> gives the words.\<close>

lemma split_ws_words:
  "s \<noteq> [] \<Longrightarrow> \<not> is_space (hd s) \<Longrightarrow> \<not> is_space (last s) \<Longrightarrow> split_ws s = ws_words s"
proof (induction s rule: split_ws.induct)
  case (1 s)
  define w where "w = takeWhile (\<lambda>c. \<not> is_space c) s"
  define r where "r = dropWhile (\<lambda>c. \<not> is_space c) s"
  have s: "dropWhile is_space s = s"
    using "1.prems" by (cases s) simp_all
  have ww: "ws_words s = w # ws_words r"
    using "1.prems"(1) by (subst ws_words.simps) (simp add: s w_def r_def)
  show ?case
  proof (cases "r = []")
    case True
    then have "split_ws s = [w]"
      by (subst split_ws.simps) (simp add: w_def r_def)
    with True ww show ?thesis
      by (simp add: ws_words_Nil)
  next
    case False
    define r' where "r' = dropWhile is_space r"
    have lr: "last r = last s"
      using False unfolding r_def by (rule last_dropWhile)
    then have "\<not> is_space (last r)"
      using "1.prems"(3) by simp
    moreover have "last r \<in> set r"
      using False by simp
    ultimately have ne: "r' \<noteq> []"
      by (auto simp: r'_def dropWhile_eq_Nil_conv)
    then have hd: "\<not> is_space (hd r')"
      using hd_dropWhile [of is_space r] by (simp add: r'_def)
    have "last r' = last r"
      using ne unfolding r'_def by (rule last_dropWhile)
    with lr "1.prems"(3) have la: "\<not> is_space (last r')"
      by simp
    have "split_ws r' = ws_words r'"
      using "1.IH" [OF w_def r_def False] ne hd la by (simp add: r'_def)
    moreover have "split_ws s = w # split_ws r'"
      using False by (subst split_ws.simps) (auto simp: Let_def w_def r_def r'_def)
    moreover have "ws_words r' = ws_words r"
      by (simp add: r'_def ws_words_dropWhile)
    ultimately show ?thesis
      using ww by simp
  qed
qed

text \<open>The test of the paragraph filter is a test on the number of words.\<close>

lemma split_ws_trim:
  "20 \<le> length (split_ws (trim s)) \<longleftrightarrow> 20 \<le> length (ws_words (trim s))"
proof (cases "trim s = []")
  case True
  then show ?thesis
    by (simp add: split_ws.simps ws_words_Nil)
next
  case False
  with trim_ends [of s] show ?thesis
    by (simp add: split_ws_words)
qed

section \<open>The summary heuristic\<close>

lemma attr_select: "attr (select_attr ''meta'' k v doc) ''content'' = first_meta k v doc"
  unfolding attr_def select_attr_def first_meta_def
  by (induction doc) simp_all

lemma first_meta_in:
  "first_meta k v doc = Some x \<Longrightarrow>
   \<exists>el \<in> set doc. tagName el = ''meta'' \<and> map_of (attribs el) k = Some v \<and>
     map_of (attribs el) ''content'' = Some x"
  unfolding first_meta_def
  by (auto split: option.splits simp: find_Some_iff)

lemma filter_Boolean_Nil:
  "filter_Boolean vs = [] \<longleftrightarrow> (\<forall>v \<in> set vs. v = None \<or> v = Some [])"
  by (induction vs rule: filter_Boolean.induct) auto

lemma filter_Boolean_find:
  "List.find (\<lambda>c. c \<noteq> None \<and> c \<noteq> Some []) vs = Some (Some x) \<Longrightarrow>
   \<exists>ms. filter_Boolean vs = x # ms"
  by (induction vs rule: filter_Boolean.induct) (auto split: if_splits)

lemma summarise_meta:
  assumes "List.find (\<lambda>c. c \<noteq> None \<and> c \<noteq> Some [])
             [first_meta ''name'' ''description'' doc,
              first_meta ''property'' ''og:description'' doc,
              first_meta ''name'' ''twitter:description'' doc] = Some (Some x)"
  shows "summarise doc = x"
proof -
  from filter_Boolean_find [OF assms] obtain ms where "metaTags doc = x # ms"
    by (auto simp: metaTags_def attr_select)
  then show ?thesis
    by (simp add: summarise_def)
qed

lemma not_described_metaTags:
  assumes "\<not> described doc"
  shows "metaTags doc = []"
proof -
  have "first_meta k v doc = None \<or> first_meta k v doc = Some []"
    if "(k, v) \<in> {(''name'', ''description''), (''property'', ''og:description''),
                   (''name'', ''twitter:description'')}" for k v
  proof (cases "first_meta k v doc")
    case None
    then show ?thesis by simp
  next
    case (Some x)
    from first_meta_in [OF this] obtain el where el: "el \<in> set doc" "tagName el = ''meta''"
      "map_of (attribs el) k = Some v" "map_of (attribs el) ''content'' = Some x"
      by blast
    have "x = []"
    proof (rule ccontr)
      assume "x \<noteq> []"
      with el that have "described doc"
        unfolding described_def list_ex_iff by (intro bexI [of _ el]) auto
      with assms show False by simp
    qed
    with Some show ?thesis by simp
  qed
  then show ?thesis
    by (simp add: metaTags_def attr_select filter_Boolean_Nil)
qed

lemma paragraphs_words:
  "paragraphs doc = filter (\<lambda>t. 20 \<le> length (ws_words t))
     (map (\<lambda>el. trim (textContent el)) (filter (\<lambda>el. tagName el = ''p'') doc))"
  unfolding paragraphs_def select_tag_def
  by (induction doc) (simp_all add: split_ws_trim)

lemma find_filter_hd: "List.find P xs = (case filter P xs of [] \<Rightarrow> None | x # _ \<Rightarrow> Some x)"
  by (induction xs) simp_all

lemma summarise_prose:
  assumes "metaTags doc = []"
  shows "summarise doc =
     (case first_prose doc of
        None \<Rightarrow> []
      | Some t \<Rightarrow> join ''. '' (take 2 (split_on ''. '' t)) @ ''.'')"
  by (simp add: summarise_def assms first_prose_def find_filter_hd
      paragraphs_words [symmetric] js_slice_take split: list.splits)

lemma summarise_fallback:
  assumes "\<not> described doc"
  shows "summarise doc =
     (case first_prose doc of
        None \<Rightarrow> []
      | Some t \<Rightarrow> join ''. '' (take 2 (split_on ''. '' t)) @ ''.'')"
  by (rule summarise_prose [OF not_described_metaTags [OF assms]])

text \<open>The summary is decided by the first tag of each of the three kinds, and by the
  paragraphs when none of these three has a non-empty \<open>content\<close>.\<close>

lemma summarise_first_tags:
  "summarise doc =
     (case List.find (\<lambda>c. c \<noteq> None \<and> c \<noteq> Some [])
             [first_meta ''name'' ''description'' doc,
              first_meta ''property'' ''og:description'' doc,
              first_meta ''name'' ''twitter:description'' doc] of
        Some (Some y) \<Rightarrow> y
      | _ \<Rightarrow>
          (case first_prose doc of
             None \<Rightarrow> []
           | Some t \<Rightarrow> join ''. '' (take 2 (split_on ''. '' t)) @ ''.''))"
proof (cases "List.find (\<lambda>c. c \<noteq> None \<and> c \<noteq> Some [])
             [first_meta ''name'' ''description'' doc,
              first_meta ''property'' ''og:description'' doc,
              first_meta ''name'' ''twitter:description'' doc]")
  case None
  then have "\<forall>c \<in> set [first_meta ''name'' ''description'' doc,
              first_meta ''property'' ''og:description'' doc,
              first_meta ''name'' ''twitter:description'' doc]. c = None \<or> c = Some []"
    unfolding find_None_iff by blast
  then have "metaTags doc = []"
    unfolding metaTags_def attr_select filter_Boolean_Nil .
  from summarise_prose [OF this] None show ?thesis
    by (simp del: List.find.simps)
next
  case (Some c)
  then have "c \<noteq> None"
    by (auto simp: find_Some_iff simp del: List.find.simps)
  then obtain y where c: "c = Some y"
    by auto
  from summarise_meta [OF Some [unfolded c]] Some c show ?thesis
    by (simp del: List.find.simps)
qed

lemma extractSummary_fetched:
  assumes "fetched_page w tr u = Some doc"
  shows "extractSummary w u tr = (summarise doc, tr @ [Fetch (FetchPage u)])"
    and "hn_extractSummary w u tr = (Inr (summarise doc), tr @ [Fetch (FetchPage u)])"
  using assms
  by (auto simp: fetched_page_def extractSummary_def hn_extractSummary_def extractSummary_body_def
      split: response.splits if_splits)

text \<open>
  C1, as amended. For every fetched page whose first \<open>meta name=description\<close> tag, in
  document order, has a non-empty \<open>content\<close>, \<open>extractSummary\<close> returns exactly that
  value, whatever the paragraphs of the page are. In general it returns the first non-empty
  value among the \<open>content\<close> of the first \<open>meta name=description\<close>, of the first
  \<open>meta property=og:description\<close> and of the first \<open>meta name=twitter:description\<close>, in
  that order; when none of these three has a non-empty \<open>content\<close>, the summary is taken
  from the paragraphs. So the summary is a function of these three first tags and of the
  paragraphs: a later duplicate of a tag is never read. This holds in both source files.
\<close>

theorem extractSummary_meta_first:
  assumes "fetched_page w tr u = Some doc"
  shows "fst (extractSummary w u tr) =
           (case List.find (\<lambda>c. c \<noteq> None \<and> c \<noteq> Some [])
                   [first_meta ''name'' ''description'' doc,
                    first_meta ''property'' ''og:description'' doc,
                    first_meta ''name'' ''twitter:description'' doc] of
              Some (Some y) \<Rightarrow> y
            | _ \<Rightarrow>
                (case first_prose doc of
                   None \<Rightarrow> []
                 | Some t \<Rightarrow> join ''. '' (take 2 (split_on ''. '' t)) @ ''.'')) \<and>
         fst (hn_extractSummary w u tr) = Inr (fst (extractSummary w u tr)) \<and>
         (first_meta ''name'' ''description'' doc = Some x \<and> x \<noteq> [] \<longrightarrow>
            fst (extractSummary w u tr) = x)"
proof -
  have s: "fst (extractSummary w u tr) = summarise doc"
    and h: "fst (hn_extractSummary w u tr) = Inr (summarise doc)"
    by (simp_all add: extractSummary_fetched [OF assms])
  have "summarise doc = x" if "first_meta ''name'' ''description'' doc = Some x \<and> x \<noteq> []"
    using that by (intro summarise_meta) simp
  then show ?thesis
    using summarise_first_tags [of doc] by (simp add: s h del: List.find.simps)
qed

theorem extractSummary_meta_first_witness:
  "fetched_page (serve page_described) [] (JStr ''http://example.org/'') = Some page_described \<and>
   first_meta ''name'' ''description'' page_described = Some ''X'' \<and>
   fst (extractSummary (serve page_described) (JStr ''http://example.org/'') []) = ''X'' \<and>
   fst (hn_extractSummary (serve page_described) (JStr ''http://example.org/'') []) = Inr ''X'' \<and>
   fetched_page (serve page_og) [] (JStr ''http://example.org/'') = Some page_og \<and>
   fst (extractSummary (serve page_og) (JStr ''http://example.org/'') []) = ''From the graph'' \<and>
   fetched_page (serve page_later) [] (JStr ''http://example.org/'') = Some page_later \<and>
   has_meta ''name'' ''description'' ''LATER'' page_later \<and>
   fst (extractSummary (serve page_later) (JStr ''http://example.org/'') []) =
     sentence_A @ ''. '' @ sentence_B @ ''.''"
proof -
  have f: "fetched_page (serve page_described) [] (JStr ''http://example.org/'') = Some page_described"
    by (simp add: fetched_page_def serve_def ok_def)
  have m: "first_meta ''name'' ''description'' page_described = Some ''X''"
    by code_simp
  have g: "fetched_page (serve page_og) [] (JStr ''http://example.org/'') = Some page_og"
    by (simp add: fetched_page_def serve_def ok_def)
  have k: "fetched_page (serve page_later) [] (JStr ''http://example.org/'') = Some page_later"
    by (simp add: fetched_page_def serve_def ok_def)
  have l: "has_meta ''name'' ''description'' ''LATER'' page_later"
    by code_simp
  note r = extractSummary_meta_first [OF f, of "''X''"]
  from r m have r1: "fst (extractSummary (serve page_described) (JStr ''http://example.org/'') []) = ''X''"
    by simp
  from r have "fst (hn_extractSummary (serve page_described) (JStr ''http://example.org/'') []) =
      Inr (fst (extractSummary (serve page_described) (JStr ''http://example.org/'') []))"
    by blast
  then have r2: "fst (hn_extractSummary (serve page_described) (JStr ''http://example.org/'') []) =
      Inr ''X''"
    by (simp only: r1)
  have "(case List.find (\<lambda>c. c \<noteq> None \<and> c \<noteq> Some [])
                   [first_meta ''name'' ''description'' page_og,
                    first_meta ''property'' ''og:description'' page_og,
                    first_meta ''name'' ''twitter:description'' page_og] of
              Some (Some y) \<Rightarrow> y
            | _ \<Rightarrow>
                (case first_prose page_og of
                   None \<Rightarrow> []
                 | Some t \<Rightarrow> join ''. '' (take 2 (split_on ''. '' t)) @ ''.'')) = ''From the graph''"
    by code_simp
  with extractSummary_meta_first [OF g]
  have r3: "fst (extractSummary (serve page_og) (JStr ''http://example.org/'') []) = ''From the graph''"
    by (simp only:)
  have "(case List.find (\<lambda>c. c \<noteq> None \<and> c \<noteq> Some [])
                   [first_meta ''name'' ''description'' page_later,
                    first_meta ''property'' ''og:description'' page_later,
                    first_meta ''name'' ''twitter:description'' page_later] of
              Some (Some y) \<Rightarrow> y
            | _ \<Rightarrow>
                (case first_prose page_later of
                   None \<Rightarrow> []
                 | Some t \<Rightarrow> join ''. '' (take 2 (split_on ''. '' t)) @ ''.'')) =
        sentence_A @ ''. '' @ sentence_B @ ''.''"
    by code_simp
  with extractSummary_meta_first [OF k]
  have r4: "fst (extractSummary (serve page_later) (JStr ''http://example.org/'') []) =
      sentence_A @ ''. '' @ sentence_B @ ''.''"
    by (simp only:)
  show ?thesis
    by (intro conjI f m r1 r2 g r3 k l r4)
qed

text \<open>
  C1 as it is stated fails on a page with two \<open>meta name=description\<close> tags of which only
  the second has a non-empty \<open>content\<close>: \<open>.attr('content')\<close> reads the first tag of the
  selection, finds the empty string, and the summary is taken from \<open>og:description\<close>.
\<close>

theorem extractSummary_meta_duplicate:
  "fetched_page (serve page_duplicate) [] (JStr ''http://example.org/'') = Some page_duplicate \<and>
   has_meta ''name'' ''description'' ''X'' page_duplicate \<and>
   fst (extractSummary (serve page_duplicate) (JStr ''http://example.org/'') []) = ''From the graph'' \<and>
   fst (hn_extractSummary (serve page_duplicate) (JStr ''http://example.org/'') []) = Inr ''From the graph''"
  by code_simp

lemma two_sentences:
  assumes "\<not> sublist ''. '' a" and "\<not> sublist ''. '' b"
  shows "join ''. '' (take 2 (split_on ''. '' (a @ ''. '' @ b @ ''. '' @ c))) @ ''.'' =
         a @ ''. '' @ b @ ''.''"
proof -
  have "split_on ''. '' (a @ ''. '' @ b @ ''. '' @ c) = a # split_on ''. '' (b @ ''. '' @ c)"
    by (rule split_on_sentence [OF assms(1)])
  also have "split_on ''. '' (b @ ''. '' @ c) = b # split_on ''. '' c"
    by (rule split_on_sentence [OF assms(2)])
  finally show ?thesis
    by (simp add: numeral_2_eq_2)
qed

text \<open>
  C2. For every fetched page with no non-empty description meta tag, \<open>extractSummary\<close>
  takes the first paragraph, in document order, whose trimmed text has at least 20
  whitespace-delimited words, splits it on \<open>". "\<close>, keeps at most the first two pieces and
  returns them joined by \<open>". "\<close>, with a period appended. When that text is
  \<open>a. b. c.\<close>, with no \<open>". "\<close> inside \<open>a\<close> or \<open>b\<close>, the result is \<open>a. b.\<close>. When no paragraph
  qualifies the result is the empty string. This holds in both source files.
\<close>

theorem extractSummary_paragraph_fallback:
  assumes "fetched_page w tr u = Some doc" and "\<not> described doc"
  shows "fst (extractSummary w u tr) =
           (case first_prose doc of
              None \<Rightarrow> []
            | Some t \<Rightarrow> join ''. '' (take 2 (split_on ''. '' t)) @ ''.'') \<and>
         fst (hn_extractSummary w u tr) = Inr (fst (extractSummary w u tr)) \<and>
         (first_prose doc = Some (a @ ''. '' @ b @ ''. '' @ c @ ''.'') \<and>
            \<not> sublist ''. '' a \<and> \<not> sublist ''. '' b \<longrightarrow>
            fst (extractSummary w u tr) = a @ ''. '' @ b @ ''.'') \<and>
         (first_prose doc = None \<longrightarrow> fst (extractSummary w u tr) = [])"
proof -
  have s: "fst (extractSummary w u tr) = summarise doc"
    and h: "fst (hn_extractSummary w u tr) = Inr (summarise doc)"
    by (simp_all add: extractSummary_fetched [OF assms(1)])
  note f = summarise_fallback [OF assms(2)]
  have "summarise doc = a @ ''. '' @ b @ ''.''"
    if "first_prose doc = Some (a @ ''. '' @ b @ ''. '' @ c @ ''.'')"
      and "\<not> sublist ''. '' a" and "\<not> sublist ''. '' b"
    using that two_sentences [of a b "c @ ''.''"] by (simp add: f)
  moreover have "summarise doc = []" if "first_prose doc = None"
    using that by (simp add: f)
  ultimately show ?thesis
    using f by (simp add: s h)
qed

theorem extractSummary_paragraph_fallback_witness:
  "fetched_page (serve page_prose) [] (JStr ''http://example.org/'') = Some page_prose \<and>
   \<not> described page_prose \<and>
   first_prose page_prose = Some (sentence_A @ ''. '' @ sentence_B @ ''. '' @ sentence_C @ ''.'') \<and>
   length (ws_words (sentence_A @ ''. '' @ sentence_B @ ''. '' @ sentence_C @ ''.'')) = 25 \<and>
   \<not> sublist ''. '' sentence_A \<and> \<not> sublist ''. '' sentence_B \<and>
   fst (extractSummary (serve page_prose) (JStr ''http://example.org/'') []) =
     sentence_A @ ''. '' @ sentence_B @ ''.'' \<and>
   fst (hn_extractSummary (serve page_prose) (JStr ''http://example.org/'') []) =
     Inr (sentence_A @ ''. '' @ sentence_B @ ''.'') \<and>
   fetched_page (serve page_plain) [] (JStr ''http://example.org/'') = Some page_plain \<and>
   \<not> described page_plain \<and> first_prose page_plain = None \<and>
   fst (extractSummary (serve page_plain) (JStr ''http://example.org/'') []) = []"
proof -
  have f: "fetched_page (serve page_prose) [] (JStr ''http://example.org/'') = Some page_prose"
    by (simp add: fetched_page_def serve_def ok_def)
  have d: "\<not> described page_prose"
    by code_simp
  have p: "first_prose page_prose =
      Some (sentence_A @ ''. '' @ sentence_B @ ''. '' @ sentence_C @ ''.'')"
    by code_simp
  have n: "length (ws_words (sentence_A @ ''. '' @ sentence_B @ ''. '' @ sentence_C @ ''.'')) = 25"
    by code_simp
  have a: "\<not> sublist ''. '' sentence_A" and b: "\<not> sublist ''. '' sentence_B"
    by code_simp+
  have g: "fetched_page (serve page_plain) [] (JStr ''http://example.org/'') = Some page_plain"
    by (simp add: fetched_page_def serve_def ok_def)
  have e: "\<not> described page_plain"
    by code_simp
  have q: "first_prose page_plain = None"
    by code_simp
  note r = extractSummary_paragraph_fallback [OF f d, of sentence_A sentence_B sentence_C]
  from r p a b
  have r1: "fst (extractSummary (serve page_prose) (JStr ''http://example.org/'') []) =
      sentence_A @ ''. '' @ sentence_B @ ''.''"
    by blast
  from r have "fst (hn_extractSummary (serve page_prose) (JStr ''http://example.org/'') []) =
      Inr (fst (extractSummary (serve page_prose) (JStr ''http://example.org/'') []))"
    by blast
  then have r2: "fst (hn_extractSummary (serve page_prose) (JStr ''http://example.org/'') []) =
      Inr (sentence_A @ ''. '' @ sentence_B @ ''.'')"
    by (simp only: r1)
  from extractSummary_paragraph_fallback [OF g e] q
  have r3: "fst (extractSummary (serve page_plain) (JStr ''http://example.org/'') []) = []"
    by blast
  show ?thesis
    by (intro conjI f d p n a b r1 r2 g e q r3)
qed

text \<open>
  C9. When the first qualifying paragraph of a page without description has no \<open>". "\<close> in
  its trimmed text, \<open>extractSummary\<close> returns that whole text with one more period, so a
  text that ends in a period gives a summary that ends in two.
\<close>

theorem extractSummary_single_sentence:
  assumes "fetched_page w tr u = Some doc" and "\<not> described doc"
    and "first_prose doc = Some t" and "\<not> sublist ''. '' t"
  shows "fst (extractSummary w u tr) = t @ ''.'' \<and>
         fst (hn_extractSummary w u tr) = Inr (t @ ''.'') \<and>
         (suffix ''.'' t \<longrightarrow> suffix ''..'' (fst (extractSummary w u tr)))"
proof -
  have "summarise doc = t @ ''.''"
    using assms(3,4) by (simp add: summarise_fallback [OF assms(2)] split_on_no_sep)
  moreover have "suffix ''..'' (t @ ''.'')" if "suffix ''.'' t"
    using that by (auto simp: suffix_def)
  ultimately show ?thesis
    by (simp add: extractSummary_fetched [OF assms(1)])
qed

theorem extractSummary_single_sentence_witness:
  "fetched_page (serve page_one_sentence) [] (JStr ''http://example.org/'') = Some page_one_sentence \<and>
   \<not> described page_one_sentence \<and>
   first_prose page_one_sentence = Some (sentence_A @ '' '' @ sentence_B @ '', and so on, etc.'') \<and>
   \<not> sublist ''. '' (sentence_A @ '' '' @ sentence_B @ '', and so on, etc.'') \<and>
   suffix ''.'' (sentence_A @ '' '' @ sentence_B @ '', and so on, etc.'') \<and>
   fst (extractSummary (serve page_one_sentence) (JStr ''http://example.org/'') []) =
     sentence_A @ '' '' @ sentence_B @ '', and so on, etc..'' \<and>
   suffix ''..'' (fst (extractSummary (serve page_one_sentence) (JStr ''http://example.org/'') []))"
proof -
  have f: "fetched_page (serve page_one_sentence) [] (JStr ''http://example.org/'') =
      Some page_one_sentence"
    by (simp add: fetched_page_def serve_def ok_def)
  have d: "\<not> described page_one_sentence"
    by code_simp
  have p: "first_prose page_one_sentence =
      Some (sentence_A @ '' '' @ sentence_B @ '', and so on, etc.'')"
    by code_simp
  have n: "\<not> sublist ''. '' (sentence_A @ '' '' @ sentence_B @ '', and so on, etc.'')"
    by code_simp
  have s: "suffix ''.'' (sentence_A @ '' '' @ sentence_B @ '', and so on, etc.'')"
    by code_simp
  note r = extractSummary_single_sentence [OF f d p n]
  from r have r1: "fst (extractSummary (serve page_one_sentence) (JStr ''http://example.org/'') []) =
      sentence_A @ '' '' @ sentence_B @ '', and so on, etc..''"
    by simp
  from r s have r2: "suffix ''..''
      (fst (extractSummary (serve page_one_sentence) (JStr ''http://example.org/'') []))"
    by blast
  show ?thesis
    by (intro conjI f d p n s r1 r2)
qed

section \<open>What each call adds to the run\<close>

lemma json_fetches_append [simp]: "json_fetches (xs @ ys) = json_fetches xs @ json_fetches ys"
  by (simp add: json_fetches_def)

lemma page_fetches_append [simp]: "page_fetches (xs @ ys) = page_fetches xs @ page_fetches ys"
  by (simp add: page_fetches_def)

lemma posts_append [simp]: "posts (xs @ ys) = posts xs @ posts ys"
  by (simp add: posts_def)

lemma console_append [simp]: "console (xs @ ys) = console xs @ console ys"
  by (simp add: console_def)

lemma projections_simps [simp]:
  "json_fetches [] = []" "page_fetches [] = []" "posts [] = []" "console [] = []"
  "json_fetches (Fetch (FetchJSON a) # tr) = a # json_fetches tr"
  "json_fetches (Fetch (FetchPage u) # tr) = json_fetches tr"
  "json_fetches (Fetch (Post n) # tr) = json_fetches tr"
  "json_fetches (Console l # tr) = json_fetches tr"
  "page_fetches (Fetch (FetchJSON a) # tr) = page_fetches tr"
  "page_fetches (Fetch (FetchPage u) # tr) = u # page_fetches tr"
  "page_fetches (Fetch (Post n) # tr) = page_fetches tr"
  "page_fetches (Console l # tr) = page_fetches tr"
  "posts (Fetch (FetchJSON a) # tr) = posts tr"
  "posts (Fetch (FetchPage u) # tr) = posts tr"
  "posts (Fetch (Post n) # tr) = n # posts tr"
  "posts (Console l # tr) = posts tr"
  "console (Fetch r # tr) = console tr"
  "console (Console l # tr) = l # console tr"
  by (simp_all add: json_fetches_def page_fetches_def posts_def console_def)

lemma printed_those: "those (map to_str vs) = Some names \<Longrightarrow> printed vs = names"
  by (induction vs arbitrary: names) (auto split: option.splits)

lemma those_length: "those (map to_str vs) = Some names \<Longrightarrow> length names = length vs"
  by (induction vs arbitrary: names) (auto split: option.splits)

lemma printed_all: "length (printed vs) = length vs \<Longrightarrow> those (map to_str vs) = Some (printed vs)"
proof (induction vs)
  case Nil
  then show ?case by simp
next
  case (Cons v vs)
  then show ?case
    by (cases "to_str v") simp_all
qed

lemma fetchJSON_value:
  "fst (fetchJSON w a tr) = (case fetched_json w tr a of None \<Rightarrow> JNull | Some v \<Rightarrow> v)"
  by (simp add: fetchJSON_def fetched_json_def Let_def split: response.splits option.splits)

lemma fetchJSON_run:
  assumes "fetchJSON w a tr = (v, tr1)"
  shows "json_fetches tr1 = json_fetches tr @ [a]"
    and "page_fetches tr1 = page_fetches tr"
    and "posts tr1 = posts tr"
  using assms
  by (auto simp: fetchJSON_def Let_def split: response.splits option.splits if_splits)

lemma hn_fetchJSON_value:
  "fetched_json w tr a = Some v \<Longrightarrow> fst (hn_fetchJSON w a tr) = Inr v"
  by (auto simp: hn_fetchJSON_def fetched_json_def Let_def split: response.splits option.splits if_splits)

lemma hn_fetchJSON_fails:
  "fetched_json w tr a = None \<Longrightarrow> \<exists>err. fst (hn_fetchJSON w a tr) = Inl err"
  by (auto simp: hn_fetchJSON_def fetched_json_def Let_def split: response.splits option.splits if_splits)

lemma hn_fetchJSON_run:
  "snd (hn_fetchJSON w a tr) = tr @ [Fetch (FetchJSON a)]"
  by (simp add: hn_fetchJSON_def Let_def split: response.splits option.splits)

lemma hn_fetchJSON_then:
  "hn_fetchJSON w a tr = (r, tr1) \<Longrightarrow> tr1 = tr @ [Fetch (FetchJSON a)]"
  using hn_fetchJSON_run [of w a tr] by simp

lemma extractSummary_body_run:
  "snd (extractSummary_body w u tr) = tr @ [Fetch (FetchPage u)]"
  by (simp add: extractSummary_body_def Let_def split: response.splits option.splits)

lemma extractSummary_body_then:
  "extractSummary_body w u tr = (r, tr1) \<Longrightarrow> tr1 = tr @ [Fetch (FetchPage u)]"
  using extractSummary_body_run [of w u tr] by simp

lemma extractSummary_run:
  assumes "extractSummary w u tr = (s, tr1)"
  shows "json_fetches tr1 = json_fetches tr"
    and "page_fetches tr1 = page_fetches tr @ [u]"
    and "posts tr1 = posts tr"
  using assms extractSummary_body_run [of w u tr]
  by (auto simp: extractSummary_def split: prod.splits sum.splits)

text \<open>\<open>sendNotification\<close> makes at most one POST, and exactly one when the url has a
  string form.\<close>

lemma sendNotification_run:
  assumes "sendNotification env w st tr = (r, tr1)"
  shows "json_fetches tr1 = json_fetches tr"
    and "page_fetches tr1 = page_fetches tr"
    and "posts tr1 = (case story_body st of
                        None \<Rightarrow> posts tr
                      | Some b \<Rightarrow> posts tr @ [\<lparr>topic = TOPIC env, Title = title st, Tags = TAGS env,
                                                Click = Some (url st), body = b\<rparr>])"
  using assms
  by (auto simp: sendNotification_def story_post_def Let_def
      split: response.splits if_splits option.splits)

text \<open>One pass of the per-story loop: which requests it makes and what it counts.\<close>

lemma step_unprintable:
  assumes "to_str ident = None"
  shows "step env w ident (sent, tr) = (Inl TypeError, tr)"
  using assms by (simp add: step_def)

lemma step_skip:
  assumes "to_str ident = Some name" and "\<not> has_url w tr ident"
  shows "step env w ident (sent, tr) = (Inr sent, snd (fetchJSON w (item_url name) tr))"
proof -
  have "\<not> truthy (fst (fetchJSON w (item_url name) tr)) \<or>
        \<not> truthy (prop_of (fst (fetchJSON w (item_url name) tr)) ''url'')"
    using assms by (auto simp: has_url_def fetchJSON_value split: option.splits)
  then show ?thesis
    using assms(1) by (auto simp: step_def split: prod.splits)
qed

lemma step_send:
  assumes "has_url w tr ident"
  obtains name item tr' where "to_str ident = Some name"
    and "fetched_json w tr (item_url name) = Some item"
    and "step env w ident (sent, tr) = (Inr (sent + 1), tr')"
    and "json_fetches tr' = json_fetches tr @ [item_url name]"
    and "page_fetches tr' = page_fetches tr @ [prop_of item ''url'']"
    and "truthy (prop_of item ''url'')"
    and "posts tr' = posts tr \<or>
         (\<exists>n. posts tr' = posts tr @ [n] \<and> Click n = Some (prop_of item ''url'') \<and>
              Title n = prop_of item ''title'')"
proof -
  from assms obtain name item where name: "to_str ident = Some name"
    and item: "fetched_json w tr (item_url name) = Some item"
    and t: "truthy item" "truthy (prop_of item ''url'')"
    by (auto simp: has_url_def split: option.splits)
  obtain v tr1 where f: "fetchJSON w (item_url name) tr = (v, tr1)"
    by (cases "fetchJSON w (item_url name) tr")
  with item have v: "v = item"
    using fetchJSON_value [of w "item_url name" tr] by simp
  obtain s tr2 where e: "extractSummary w (prop_of item ''url'') tr1 = (s, tr2)"
    by (cases "extractSummary w (prop_of item ''url'') tr1")
  define st where "st = \<lparr>title = prop_of item ''title'',
    summary = (if s = [] then ''(No summary available)'' else s), url = prop_of item ''url''\<rparr>"
  obtain r tr3 where n: "sendNotification env w st tr2 = (r, tr3)"
    by (cases "sendNotification env w st tr2")
  define tr' where "tr' = (case r of Inl err \<Rightarrow> tr3 @ [Console (LogError err)] | Inr x \<Rightarrow> tr3)"
  have s: "step env w ident (sent, tr) = (Inr (sent + 1), tr')"
    using name f v t e n by (simp add: step_def st_def [symmetric] tr'_def split: sum.splits)
  have "json_fetches tr' = json_fetches tr @ [item_url name]"
    using fetchJSON_run(1) [OF f] extractSummary_run(1) [OF e] sendNotification_run(1) [OF n]
    by (simp add: tr'_def split: sum.splits)
  moreover have "page_fetches tr' = page_fetches tr @ [prop_of item ''url'']"
    using fetchJSON_run(2) [OF f] extractSummary_run(2) [OF e] sendNotification_run(2) [OF n]
    by (simp add: tr'_def split: sum.splits)
  moreover have "posts tr' = posts tr \<or>
         (\<exists>n. posts tr' = posts tr @ [n] \<and> Click n = Some (prop_of item ''url'') \<and>
              Title n = prop_of item ''title'')"
    using fetchJSON_run(3) [OF f] extractSummary_run(3) [OF e] sendNotification_run(3) [OF n]
    by (auto simp: tr'_def st_def split: sum.splits option.splits)
  ultimately show ?thesis
    using that [OF name item s] t(2) by simp
qed

lemma step_json_fetches:
  "json_fetches (snd (step env w ident (sent, tr))) = json_fetches tr @ map item_url (printed [ident])"
proof (cases "to_str ident")
  case None
  then show ?thesis
    by (simp add: step_unprintable)
next
  case (Some name)
  show ?thesis
  proof (cases "has_url w tr ident")
    case True
    have "json_fetches (snd (step env w ident (sent, tr))) = json_fetches tr @ [item_url name]"
      by (rule step_send [OF True, of env sent]) (simp add: Some)
    with Some show ?thesis
      by simp
  next
    case False
    obtain v tr1 where f: "fetchJSON w (item_url name) tr = (v, tr1)"
      by (cases "fetchJSON w (item_url name) tr")
    with step_skip [OF Some False, of env sent] fetchJSON_run(1) [OF f] Some show ?thesis
      by simp
  qed
qed

lemma step_result:
  "fst (step env w ident (sent, tr)) =
     (case to_str ident of
        None \<Rightarrow> Inl TypeError
      | Some name \<Rightarrow> Inr (if has_url w tr ident then sent + 1 else sent))"
proof (cases "to_str ident")
  case None
  then show ?thesis
    by (simp add: step_unprintable)
next
  case (Some name)
  show ?thesis
  proof (cases "has_url w tr ident")
    case True
    have "fst (step env w ident (sent, tr)) = Inr (sent + 1)"
      by (rule step_send [OF True, of env sent]) simp
    with True Some show ?thesis
      by simp
  next
    case False
    with step_skip [OF Some False, of env sent] Some show ?thesis
      by simp
  qed
qed

lemma step_pages:
  "length (page_fetches (snd (step env w ident (sent, tr)))) =
   length (page_fetches tr) + (if has_url w tr ident then 1 else 0)"
proof (cases "has_url w tr ident")
  case True
  have "length (page_fetches (snd (step env w ident (sent, tr)))) = length (page_fetches tr) + 1"
    by (rule step_send [OF True, of env sent]) simp
  with True show ?thesis
    by simp
next
  case False
  show ?thesis
  proof (cases "to_str ident")
    case None
    with False show ?thesis
      by (simp add: step_unprintable)
  next
    case (Some name)
    obtain v tr1 where f: "fetchJSON w (item_url name) tr = (v, tr1)"
      by (cases "fetchJSON w (item_url name) tr")
    with step_skip [OF Some False, of env sent] fetchJSON_run(2) [OF f] False show ?thesis
      by simp
  qed
qed

lemma step_posts:
  "length (posts (snd (step env w ident (sent, tr)))) \<le>
   length (posts tr) + (if has_url w tr ident then 1 else 0)"
proof (cases "has_url w tr ident")
  case True
  have "length (posts (snd (step env w ident (sent, tr)))) \<le> length (posts tr) + 1"
    by (rule step_send [OF True, of env sent]) auto
  with True show ?thesis
    by simp
next
  case False
  show ?thesis
  proof (cases "to_str ident")
    case None
    with False show ?thesis
      by (simp add: step_unprintable)
  next
    case (Some name)
    obtain v tr1 where f: "fetchJSON w (item_url name) tr = (v, tr1)"
      by (cases "fetchJSON w (item_url name) tr")
    with step_skip [OF Some False, of env sent] fetchJSON_run(3) [OF f] False show ?thesis
      by simp
  qed
qed

text \<open>The loop requests the item of each identifier in turn, up to the first identifier
  without a string form, where it throws; it throws nowhere else.\<close>

lemma loop_json_fetches:
  "json_fetches (snd (loop env w idents st)) = json_fetches (snd st) @ map item_url (printed idents)"
proof (induction idents arbitrary: st)
  case Nil
  then show ?case by simp
next
  case (Cons ident idents)
  obtain sent tr where st: "st = (sent, tr)"
    by (cases st)
  obtain r tr1 where s: "step env w ident (sent, tr) = (r, tr1)"
    by (cases "step env w ident (sent, tr)")
  show ?case
  proof (cases "to_str ident")
    case None
    then show ?thesis
      by (simp add: st step_unprintable)
  next
    case (Some name)
    with step_result [of env w ident sent tr] s obtain sent' where r: "r = Inr sent'"
      by auto
    from step_json_fetches [of env w ident sent tr] s Some
    have "json_fetches tr1 = json_fetches tr @ [item_url name]"
      by simp
    with Cons.IH [of "(sent', tr1)"] s r Some show ?thesis
      by (simp add: st)
  qed
qed

lemma loop_result:
  "fst (loop env w idents st) =
     (if length (printed idents) = length idents
      then Inr (fst st + (length (page_fetches (snd (loop env w idents st))) -
                          length (page_fetches (snd st))))
      else Inl TypeError)"
proof (induction idents arbitrary: st)
  case Nil
  then show ?case by simp
next
  case (Cons ident idents)
  obtain sent tr where st: "st = (sent, tr)"
    by (cases st)
  obtain r tr1 where s: "step env w ident (sent, tr) = (r, tr1)"
    by (cases "step env w ident (sent, tr)")
  have le: "length (printed idents) \<le> length idents" for idents
    by (induction idents) (auto split: option.splits)
  show ?case
  proof (cases "to_str ident")
    case None
    then show ?thesis
      by (simp add: st step_unprintable)
  next
    case (Some name)
    with step_result [of env w ident sent tr] s
    have r: "r = Inr (if has_url w tr ident then sent + 1 else sent)"
      by simp
    from step_pages [of env w ident sent tr] s
    have p: "length (page_fetches tr1) = length (page_fetches tr) + (if has_url w tr ident then 1 else 0)"
      by simp
    have m: "length (page_fetches tr1) \<le> length (page_fetches (snd (loop env w idents (sent', tr1))))"
      for sent'
    proof (induction idents arbitrary: sent' tr1)
      case Nil
      then show ?case by simp
    next
      case (Cons i rest)
      obtain r2 tr2 where s2: "step env w i (sent', tr1) = (r2, tr2)"
        by (cases "step env w i (sent', tr1)")
      from step_pages [of env w i sent' tr1] s2
      have "length (page_fetches tr1) \<le> length (page_fetches tr2)"
        by simp
      with Cons [of tr2] s2 show ?case
        by (cases r2) (auto intro: order_trans)
    qed
    show ?thesis
      using Cons.IH [of "(if has_url w tr ident then sent + 1 else sent, tr1)"] s r Some p
        m [of "if has_url w tr ident then sent + 1 else sent"]
      by (auto simp: st)
  qed
qed

section \<open>The per-story run\<close>

lemma first_fetch:
  "json_fetches (snd (fetchJSON w a [])) = [a]"
  "page_fetches (snd (fetchJSON w a [])) = []"
  "posts (snd (fetchJSON w a [])) = []"
  using fetchJSON_run [of w a "[]" "fst (fetchJSON w a [])" "snd (fetchJSON w a [])"]
  by simp_all

lemma handler_listed:
  assumes "listed w = Some (JArr ids)"
  shows "handler env w =
     (case loop env w (js_slice 0 (LIMIT env) ids) (0, snd (fetchJSON w topstories_url [])) of
        (Inl err, tr') \<Rightarrow>
          (Reply 500 (JObj [(''error'', JStr ''Internal Server Error'')]),
           tr' @ [Console (LogError err)])
      | (Inr sent, tr') \<Rightarrow>
          (Reply 200 (JObj [(''success'', JBool True), (''sent'', JNum (of_nat sent))]), tr'))"
proof -
  obtain v tr where f: "fetchJSON w topstories_url [] = (v, tr)"
    by (cases "fetchJSON w topstories_url []")
  have "fst (fetchJSON w topstories_url []) = JArr ids"
    using assms by (simp add: fetchJSON_value listed_def)
  with f have "v = JArr ids"
    by simp
  with f show ?thesis
    by (simp add: handler_def)
qed

lemma handler_json_fetches:
  assumes "listed w = Some (JArr ids)"
  shows "json_fetches (snd (handler env w)) =
         topstories_url # map item_url (printed (js_slice 0 (LIMIT env) ids))"
  using loop_json_fetches [of env w "js_slice 0 (LIMIT env) ids"
      "(0, snd (fetchJSON w topstories_url []))"]
  by (auto simp: handler_listed [OF assms] first_fetch split: prod.splits sum.splits)

lemma handler_sent:
  assumes "listed w = Some (JArr ids)"
    and "length (printed (js_slice 0 (LIMIT env) ids)) = length (js_slice 0 (LIMIT env) ids)"
  shows "fst (handler env w) =
         Reply 200 (JObj [(''success'', JBool True),
                          (''sent'', JNum (of_nat (length (page_fetches (snd (handler env w))))))])"
  using loop_result [of env w "js_slice 0 (LIMIT env) ids"
      "(0, snd (fetchJSON w topstories_url []))"] assms(2)
  by (auto simp: handler_listed [OF assms(1)] first_fetch split: prod.splits sum.splits)

lemma handler_throws:
  assumes "listed w = Some (JArr ids)"
    and "length (printed (js_slice 0 (LIMIT env) ids)) \<noteq> length (js_slice 0 (LIMIT env) ids)"
  shows "fst (handler env w) = Reply 500 (JObj [(''error'', JStr ''Internal Server Error'')])"
  using loop_result [of env w "js_slice 0 (LIMIT env) ids"
      "(0, snd (fetchJSON w topstories_url []))"] assms(2)
  by (auto simp: handler_listed [OF assms(1)] split: prod.splits sum.splits)

text \<open>An identifier without a string form ends the per-story run with the answer of the
  outer \<open>catch\<close>; the stories before it have been notified.\<close>

lemma handler_object_id:
  "listed world_object_id = Some (JArr [JNum 1, JObj [(''toString'', JNum 1)], JNum 3]) \<and>
   fst (handler Map.empty world_object_id) =
     Reply 500 (JObj [(''error'', JStr ''Internal Server Error'')]) \<and>
   json_fetches (snd (handler Map.empty world_object_id)) = [topstories_url, item_url ''1''] \<and>
   length (posts (snd (handler Map.empty world_object_id))) = 1"
  by code_simp

section \<open>The digest run\<close>

lemma hn_step_json_fetches:
  "json_fetches (snd (hn_step w ident (stories, tr))) = json_fetches tr @ map item_url (printed [ident])"
  by (auto simp: hn_step_def hn_extractSummary_def split: prod.splits sum.splits option.splits
      dest!: hn_fetchJSON_then extractSummary_body_then)

lemma hn_step_printed:
  "fst (hn_step w ident (stories, tr)) = Inr stories' \<Longrightarrow> to_str ident \<noteq> None"
  by (auto simp: hn_step_def split: option.splits)

lemma hn_loop_json_fetches:
  "prefix (json_fetches (snd (hn_loop w idents st)))
     (json_fetches (snd st) @ map item_url (printed idents)) \<and>
   prefix (json_fetches (snd st)) (json_fetches (snd (hn_loop w idents st)))"
proof (induction idents arbitrary: st)
  case Nil
  then show ?case by simp
next
  case (Cons ident idents)
  obtain stories tr where st: "st = (stories, tr)"
    by (cases st)
  have j: "json_fetches (snd (hn_step w ident st)) = json_fetches tr @ map item_url (printed [ident])"
    by (simp add: st hn_step_json_fetches)
  show ?case
  proof (cases "hn_step w ident st")
    case (Pair r tr1)
    show ?thesis
    proof (cases r)
      case (Inl err)
      with Pair j show ?thesis
        by (auto simp: st split: option.splits)
    next
      case (Inr stories')
      with Pair hn_step_printed [of w ident stories tr stories'] obtain name
        where name: "to_str ident = Some name"
        by (auto simp: st)
      with Inr Pair j Cons.IH [of "(stories', tr1)"] show ?thesis
        by (auto simp: st dest: append_prefixD)
    qed
  qed
qed

lemma hn_loop_complete:
  assumes "fst (hn_loop w idents st) = Inr stories'"
  shows "json_fetches (snd (hn_loop w idents st)) =
           json_fetches (snd st) @ map item_url (printed idents) \<and>
         length (printed idents) = length idents"
  using assms
proof (induction idents arbitrary: st)
  case Nil
  then show ?case by simp
next
  case (Cons ident idents)
  obtain stories tr where st: "st = (stories, tr)"
    by (cases st)
  obtain r tr1 where s: "hn_step w ident (stories, tr) = (r, tr1)"
    by (cases "hn_step w ident (stories, tr)")
  with Cons.prems obtain stories1 where r: "r = Inr stories1"
    by (cases r) (simp_all add: st)
  with s hn_step_printed [of w ident stories tr stories1] obtain name
    where name: "to_str ident = Some name"
    by auto
  from hn_step_json_fetches [of w ident stories tr] s name
  have "json_fetches tr1 = json_fetches tr @ [item_url name]"
    by simp
  moreover from Cons.prems s r have "fst (hn_loop w idents (stories1, tr1)) = Inr stories'"
    by (simp add: st)
  ultimately show ?case
    using Cons.IH [of "(stories1, tr1)"] s r name by (simp add: st)
qed

lemma hn_stories_listed:
  assumes "listed w = Some ids"
  shows "hn_stories w =
     (case hn_topIds ids of
        Inl err \<Rightarrow> (Inl err, [Fetch (FetchJSON topstories_url)])
      | Inr topIds \<Rightarrow> hn_loop w topIds ([], [Fetch (FetchJSON topstories_url)]))"
proof -
  have "hn_fetchJSON w topstories_url [] = (Inr ids, [Fetch (FetchJSON topstories_url)])"
    using hn_fetchJSON_value [of w "[]" topstories_url ids] assms
      hn_fetchJSON_run [of w topstories_url "[]"]
    by (cases "hn_fetchJSON w topstories_url []") (simp add: listed_def)
  then show ?thesis
    by (simp add: hn_stories_def)
qed

lemma hn_handler_json_fetches:
  "json_fetches (snd (hn_handler env w)) = json_fetches (snd (hn_stories w))"
  by (auto simp: hn_handler_def hn_try_def digest_post_def
      split: prod.splits sum.splits option.splits response.splits)

text \<open>
  C4, as amended. For every limit \<open>L \<ge> 1\<close> that \<open>parseInt\<close> reads from \<open>STORY_LIMIT\<close>
  and every list of identifiers that the list request returns, the identifiers that the
  per-story handler goes on with are the first \<open>min L length\<close> entries of the list, in the
  same order, at most \<open>L\<close> of them, and the items it requests are those of these
  identifiers, one after the other, up to the first identifier that has no string form, if
  there is one, and no other. The digest handler takes the first ten identifiers whatever
  the configuration is: it requests the item of each identifier it reaches, never an item
  beyond them, and all of them when its loop completes.
\<close>

theorem handler_takes_first:
  assumes "listed w = Some (JArr ids)"
    and "env ''STORY_LIMIT'' = Some v" and "parseInt v = Some L" and "0 < L"
  shows "LIMIT env = L \<and>
         js_slice 0 (LIMIT env) ids = take (nat L) ids \<and>
         length (take (nat L) ids) = min (nat L) (length ids) \<and>
         json_fetches (snd (handler env w)) =
           topstories_url # map item_url (printed (take (nat L) ids)) \<and>
         (those (map to_str (take (nat L) ids)) = Some names \<longrightarrow>
            json_fetches (snd (handler env w)) = topstories_url # map item_url names) \<and>
         hn_topIds (JArr ids) = Inr (take 10 ids) \<and>
         prefix (json_fetches (snd (hn_handler env w)))
           (topstories_url # map item_url (printed (take 10 ids))) \<and>
         (to_str ident = Some name \<longrightarrow>
            json_fetches (snd (hn_step w ident (stories, tr))) = json_fetches tr @ [item_url name]) \<and>
         (fst (hn_stories w) = Inr digested \<longrightarrow>
            json_fetches (snd (hn_handler env w)) =
              topstories_url # map item_url (printed (take 10 ids)) \<and>
            length (printed (take 10 ids)) = length (take 10 ids))"
proof -
  have l: "LIMIT env = L"
    using assms(2-4) by (simp add: LIMIT_def)
  have s: "js_slice 0 (LIMIT env) ids = take (nat L) ids"
    using assms(4) by (simp add: l js_slice_take)
  have j: "json_fetches (snd (handler env w)) =
      topstories_url # map item_url (printed (take (nat L) ids))"
    using handler_json_fetches [OF assms(1), of env] by (simp add: s)
  have t: "hn_topIds (JArr ids) = Inr (take 10 ids)"
    by (simp add: hn_topIds_def js_slice_take)
  have h: "hn_stories w = hn_loop w (take 10 ids) ([], [Fetch (FetchJSON topstories_url)])"
    by (simp add: hn_stories_listed [OF assms(1)] t)
  have p: "prefix (json_fetches (snd (hn_handler env w)))
      (topstories_url # map item_url (printed (take 10 ids)))"
    using hn_loop_json_fetches [of w "take 10 ids" "([], [Fetch (FetchJSON topstories_url)])"]
    by (simp add: hn_handler_json_fetches h)
  have c: "json_fetches (snd (hn_handler env w)) =
        topstories_url # map item_url (printed (take 10 ids)) \<and>
      length (printed (take 10 ids)) = length (take 10 ids)"
    if "fst (hn_stories w) = Inr digested"
    using hn_loop_complete [of w "take 10 ids" "([], [Fetch (FetchJSON topstories_url)])" digested]
      that
    by (simp add: hn_handler_json_fetches h)
  have q: "json_fetches (snd (hn_step w ident (stories, tr))) = json_fetches tr @ [item_url name]"
    if "to_str ident = Some name"
    using that by (simp add: hn_step_json_fetches)
  show ?thesis
    using l s j t p c q by (auto dest: printed_those)
qed

theorem handler_takes_first_witness:
  "listed world_three = Some (JArr [JNum 1, JNum 2, JNum 3]) \<and>
   limit_two ''STORY_LIMIT'' = Some ''2'' \<and> parseInt ''2'' = Some 2 \<and>
   those (map to_str (take 2 [JNum 1, JNum 2, JNum 3])) = Some [''1'', ''2''] \<and>
   json_fetches (snd (handler limit_two world_three)) =
     [topstories_url, item_url ''1'', item_url ''2''] \<and>
   item_url ''3'' \<notin> set (json_fetches (snd (handler limit_two world_three))) \<and>
   fst (hn_stories world_three) = Inr [link_story, link_story, link_story] \<and>
   json_fetches (snd (hn_handler limit_two world_three)) =
     [topstories_url, item_url ''1'', item_url ''2'', item_url ''3'']"
proof -
  have l: "listed world_three = Some (JArr [JNum 1, JNum 2, JNum 3])"
    by code_simp
  have e: "limit_two ''STORY_LIMIT'' = Some ''2''"
    by (simp add: limit_two_def)
  have p: "parseInt ''2'' = Some 2"
    by code_simp
  have n: "those (map to_str (take 2 [JNum 1, JNum 2, JNum 3])) = Some [''1'', ''2'']"
    by code_simp
  have h: "fst (hn_stories world_three) = Inr [link_story, link_story, link_story]"
    by code_simp
  have d: "printed (take 10 [JNum 1, JNum 2, JNum 3]) = [''1'', ''2'', ''3'']"
    by code_simp
  have z: "(0::int) < 2"
    by simp
  note r = handler_takes_first [where env = limit_two and w = world_three
      and names = "[''1'', ''2'']" and digested = "[link_story, link_story, link_story]",
      OF l e p z]
  from r n have j: "json_fetches (snd (handler limit_two world_three)) =
      [topstories_url, item_url ''1'', item_url ''2'']"
    by (simp add: numeral_2_eq_2)
  have "item_url ''3'' \<notin> set [topstories_url, item_url ''1'', item_url ''2'']"
    by code_simp
  then have k: "item_url ''3'' \<notin> set (json_fetches (snd (handler limit_two world_three)))"
    unfolding j .
  from r h have "json_fetches (snd (hn_handler limit_two world_three)) =
      topstories_url # map item_url (printed (take 10 [JNum 1, JNum 2, JNum 3]))"
    by simp
  then have g: "json_fetches (snd (hn_handler limit_two world_three)) =
     [topstories_url, item_url ''1'', item_url ''2'', item_url ''3'']"
    by (simp only: d list.map)
  show ?thesis
    by (intro conjI l e p n j k h g)
qed

text \<open>
  C4 as it is stated fails at the limit 0, which the claim admits: \<open>parseInt(...) || 10\<close>
  replaces it by 10. Here \<open>STORY_LIMIT\<close> is \<open>0\<close>, the list has three identifiers, and the
  run requests the three items, where the claim allows none.
\<close>

theorem handler_limit_zero:
  "limit_zero ''STORY_LIMIT'' = Some ''0'' \<and> parseInt ''0'' = Some 0 \<and>
   listed world_three = Some (JArr [JNum 1, JNum 2, JNum 3]) \<and>
   json_fetches (snd (handler limit_zero world_three)) =
     [topstories_url, item_url ''1'', item_url ''2'', item_url ''3'']"
  by code_simp

text \<open>
  C10. In the per-story file, when \<open>STORY_LIMIT\<close> is not set, is \<open>0\<close>, or does not parse
  as an integer, \<open>LIMIT\<close> is 10, so a run goes through the first ten stories of the list
  (as far as their identifiers have a string form); and no environment makes \<open>LIMIT\<close> zero.
\<close>

theorem LIMIT_default:
  assumes "case env ''STORY_LIMIT'' of None \<Rightarrow> True | Some v \<Rightarrow> v = ''0'' \<or> parseInt v = None"
  shows "LIMIT env = 10 \<and> LIMIT env' \<noteq> 0 \<and>
         (listed w = Some (JArr ids) \<longrightarrow>
            json_fetches (snd (handler env w)) =
              topstories_url # map item_url (printed (take 10 ids)))"
proof -
  have u: "parseInt ''undefined'' = None" and z: "parseInt ''0'' = Some 0"
    by code_simp+
  have l: "LIMIT env = 10"
    using assms by (auto simp: LIMIT_def u z split: option.splits)
  have "LIMIT env' \<noteq> 0"
    by (simp add: LIMIT_def split: option.splits)
  moreover have "json_fetches (snd (handler env w)) =
      topstories_url # map item_url (printed (take 10 ids))"
    if "listed w = Some (JArr ids)"
    using handler_json_fetches [OF that, of env] by (simp add: l js_slice_take)
  ultimately show ?thesis
    using l by simp
qed

theorem LIMIT_default_witness:
  "LIMIT Map.empty = 10 \<and> LIMIT limit_zero = 10 \<and> LIMIT limit_word = 10 \<and>
   listed world_eleven = Some (JArr (map JNum [1, 2, 3, 4, 5, 6, 7, 8, 9, 10, 11])) \<and>
   json_fetches (snd (handler limit_zero world_eleven)) =
     topstories_url # map (item_url \<circ> dec) [1, 2, 3, 4, 5, 6, 7, 8, 9, 10]"
proof -
  have a: "case Map.empty ''STORY_LIMIT'' of None \<Rightarrow> True
           | Some v \<Rightarrow> v = ''0'' \<or> parseInt v = None"
    by simp
  have b: "case limit_zero ''STORY_LIMIT'' of None \<Rightarrow> True
           | Some v \<Rightarrow> v = ''0'' \<or> parseInt v = None"
    by (simp add: limit_zero_def)
  have "parseInt ''ten'' = None"
    by code_simp
  then have c: "case limit_word ''STORY_LIMIT'' of None \<Rightarrow> True
           | Some v \<Rightarrow> v = ''0'' \<or> parseInt v = None"
    by (simp add: limit_word_def)
  have l: "listed world_eleven = Some (JArr (map JNum [1, 2, 3, 4, 5, 6, 7, 8, 9, 10, 11]))"
    by code_simp
  have p: "map item_url (printed (take 10 (map JNum [1, 2, 3, 4, 5, 6, 7, 8, 9, 10, 11]))) =
      map (item_url \<circ> dec) [1, 2, 3, 4, 5, 6, 7, 8, 9, 10]"
    by code_simp
  from LIMIT_default [of Map.empty, OF a] have r1: "LIMIT Map.empty = 10"
    by blast
  from LIMIT_default [of limit_word, OF c] have r3: "LIMIT limit_word = 10"
    by blast
  from LIMIT_default [of limit_zero _ world_eleven, OF b] l
  have r2: "LIMIT limit_zero = 10"
    and "json_fetches (snd (handler limit_zero world_eleven)) =
      topstories_url #
      map item_url (printed (take 10 (map JNum [1, 2, 3, 4, 5, 6, 7, 8, 9, 10, 11])))"
    by blast+
  then have r4: "json_fetches (snd (handler limit_zero world_eleven)) =
      topstories_url # map (item_url \<circ> dec) [1, 2, 3, 4, 5, 6, 7, 8, 9, 10]"
    by (simp only: p)
  show ?thesis
    by (intro conjI r1 r2 r3 l r4)
qed

section \<open>Failures\<close>

text \<open>In the per-story file a page that cannot be fetched or read gives the empty summary.\<close>

lemma extractSummary_failure:
  assumes "fetched_page w tr u = None"
  shows "fst (extractSummary w u tr) = []"
  using assms
  by (auto simp: fetched_page_def extractSummary_def extractSummary_body_def Let_def
      split: response.splits option.splits if_splits)

text \<open>
  C3. A network or parse failure inside \<open>extractSummary\<close> is caught and gives the empty
  summary; it never reaches the caller and never ends the run. The per-story file does so
  (\<open>extractSummary_failure\<close>). The digest handler of \<open>src/api/hn.js\<close> does not: its
  \<open>extractSummary\<close> has no \<open>try\<close>, so when the fetch of the article is rejected the
  exception leaves \<open>extractSummary\<close>, ends the loop of the handler, and the run answers 500
  without sending the digest. On the same network the per-story handler logs the failure,
  sends the notification with the placeholder and answers 200.
\<close>

theorem hn_extractSummary_propagates:
  "fetched_page world_page_down [Fetch (FetchJSON topstories_url), Fetch (FetchJSON (item_url ''1''))]
     (JStr ''http://example.org/'') = None \<and>
   fst (hn_extractSummary world_page_down (JStr ''http://example.org/'')
     [Fetch (FetchJSON topstories_url), Fetch (FetchJSON (item_url ''1''))]) = Inl NetworkError \<and>
   hn_handler Map.empty world_page_down =
     (Reply 500 (JObj [(''error'', JStr ''Failed to fetch or send stories'')]),
      [Fetch (FetchJSON topstories_url), Fetch (FetchJSON (item_url ''1'')),
       Fetch (FetchPage (JStr ''http://example.org/'')), Console (LogError NetworkError)]) \<and>
   fst (extractSummary world_page_down (JStr ''http://example.org/'')
     [Fetch (FetchJSON topstories_url), Fetch (FetchJSON (item_url ''1''))]) = [] \<and>
   fst (handler Map.empty world_page_down) =
     Reply 200 (JObj [(''success'', JBool True), (''sent'', JNum 1)])"
  by code_simp

text \<open>
  The list request fails, or its payload is not an array: the per-story handler answers 500
  and has sent nothing. The digest handler does so when the request fails or the payload is
  neither an array nor a string.
\<close>

lemma handler_list_failure:
  assumes "case listed w of Some (JArr ids) \<Rightarrow> False | _ \<Rightarrow> True"
  shows "fst (handler env w) = Reply 500 (JObj [(''error'', JStr ''Failed to fetch top stories'')])"
    and "posts (snd (handler env w)) = []"
    and "page_fetches (snd (handler env w)) = []"
proof -
  obtain v tr where f: "fetchJSON w topstories_url [] = (v, tr)"
    by (cases "fetchJSON w topstories_url []")
  have "fst (fetchJSON w topstories_url []) = (case listed w of None \<Rightarrow> JNull | Some x \<Rightarrow> x)"
    by (simp add: fetchJSON_value listed_def)
  with f assms have v: "case v of JArr ids \<Rightarrow> False | _ \<Rightarrow> True"
    by (auto split: option.splits jsval.splits)
  then have h: "handler env w =
      (Reply 500 (JObj [(''error'', JStr ''Failed to fetch top stories'')]), tr)"
    by (auto simp: handler_def f split: jsval.splits)
  show "fst (handler env w) = Reply 500 (JObj [(''error'', JStr ''Failed to fetch top stories'')])"
    and "posts (snd (handler env w)) = []"
    and "page_fetches (snd (handler env w)) = []"
    using fetchJSON_run [OF f] by (simp_all add: h)
qed

lemma hn_handler_list_failure:
  assumes "case listed w of None \<Rightarrow> True | Some (JArr ids) \<Rightarrow> False | Some (JStr s) \<Rightarrow> False
           | Some v \<Rightarrow> True"
  shows "fst (hn_handler env w) =
           Reply 500 (JObj [(''error'', JStr ''Failed to fetch or send stories'')])"
    and "posts (snd (hn_handler env w)) = []"
    and "page_fetches (snd (hn_handler env w)) = []"
proof -
  obtain r tr where f: "hn_fetchJSON w topstories_url [] = (r, tr)"
    by (cases "hn_fetchJSON w topstories_url []")
  have tr: "tr = [Fetch (FetchJSON topstories_url)]"
    using hn_fetchJSON_then [OF f] by simp
  have "\<exists>err. fst (hn_stories w) = Inl err \<and> snd (hn_stories w) = tr"
  proof (cases "listed w")
    case None
    with hn_fetchJSON_fails [of w "[]" topstories_url] f show ?thesis
      by (auto simp: listed_def hn_stories_def)
  next
    case (Some v)
    with hn_fetchJSON_value [of w "[]" topstories_url v] f have "r = Inr v"
      by (simp add: listed_def)
    with Some assms f show ?thesis
      by (auto simp: hn_stories_def hn_topIds_def split: jsval.splits)
  qed
  then obtain err where "hn_stories w = (Inl err, tr)"
    by (cases "hn_stories w") auto
  then have "hn_handler env w =
      (Reply 500 (JObj [(''error'', JStr ''Failed to fetch or send stories'')]),
       tr @ [Console (LogError err)])"
    by (simp add: hn_handler_def hn_try_def)
  then show "fst (hn_handler env w) =
           Reply 500 (JObj [(''error'', JStr ''Failed to fetch or send stories'')])"
    and "posts (snd (hn_handler env w)) = []"
    and "page_fetches (snd (hn_handler env w)) = []"
    by (simp_all add: tr)
qed

text \<open>
  C5. When the list request fails or returns a payload that is not a sequence of
  identifiers, the handler ends the run, answers with an error status and has sent nothing
  to the relay. The per-story handler does so (\<open>handler_list_failure\<close>). The digest handler
  of \<open>src/api/hn.js\<close> does not test the payload with \<open>Array.isArray\<close>: a payload that is a
  string has a \<open>slice\<close> method and can be iterated, so the handler takes each character for
  an identifier, requests its item, sends a digest (an empty one when no item comes back) and
  answers 200.
\<close>

theorem hn_handler_string_payload:
  "listed world_string = Some (JStr ''a'') \<and>
   hn_handler Map.empty world_string =
     (Reply 200 (JObj [(''success'', JBool True), (''count'', JNum 0)]),
      [Fetch (FetchJSON topstories_url), Fetch (FetchJSON (item_url ''a'')),
       Fetch (Post \<lparr>topic = ''hn_daily_summaries'', Title = JStr ''Hacker News Top 10'',
                    Tags = ''news'', Click = None, body = []\<rparr>)]) \<and>
   handler Map.empty world_string =
     (Reply 500 (JObj [(''error'', JStr ''Failed to fetch top stories'')]),
      [Fetch (FetchJSON topstories_url)])"
  by code_simp

section \<open>Stories without a url\<close>

lemma hn_step_skip:
  assumes "\<not> has_url w tr ident"
  shows "case fst (hn_step w ident (stories, tr)) of Inl err \<Rightarrow> True | Inr stories' \<Rightarrow> stories' = stories"
    and "page_fetches (snd (hn_step w ident (stories, tr))) = page_fetches tr"
    and "posts (snd (hn_step w ident (stories, tr))) = posts tr"
proof -
  have "(case fst (hn_step w ident (stories, tr)) of Inl err \<Rightarrow> True
         | Inr stories' \<Rightarrow> stories' = stories) \<and>
        page_fetches (snd (hn_step w ident (stories, tr))) = page_fetches tr \<and>
        posts (snd (hn_step w ident (stories, tr))) = posts tr"
  proof (cases "to_str ident")
    case None
    then show ?thesis
      by (simp add: hn_step_def)
  next
    case (Some name)
    obtain r tr1 where f: "hn_fetchJSON w (item_url name) tr = (r, tr1)"
      by (cases "hn_fetchJSON w (item_url name) tr")
    have tr1: "tr1 = tr @ [Fetch (FetchJSON (item_url name))]"
      using hn_fetchJSON_then [OF f] .
    show ?thesis
    proof (cases r)
      case (Inl err)
      with f Some show ?thesis
        by (simp add: hn_step_def tr1)
    next
      case (Inr item)
      have "fetched_json w tr (item_url name) = Some item"
      proof (cases "fetched_json w tr (item_url name)")
        case None
        from hn_fetchJSON_fails [OF this] f Inr show ?thesis
          by simp
      next
        case (Some v)
        from hn_fetchJSON_value [OF this] f Inr show ?thesis
          by (simp add: Some)
      qed
      with assms Some have "\<not> truthy item \<or> \<not> truthy (prop_of item ''url'')"
        by (simp add: has_url_def)
      with f Inr Some tr1 show ?thesis
        by (auto simp: hn_step_def)
    qed
  qed
  then show "case fst (hn_step w ident (stories, tr)) of Inl err \<Rightarrow> True
             | Inr stories' \<Rightarrow> stories' = stories"
    and "page_fetches (snd (hn_step w ident (stories, tr))) = page_fetches tr"
    and "posts (snd (hn_step w ident (stories, tr))) = posts tr"
    by simp_all
qed

text \<open>Every notification of a per-story run opens an address that the run has scraped
  before, and every scraped address is truthy.\<close>

lemma step_clicks:
  assumes "subseq (map Click (posts tr)) (map Some (page_fetches tr))"
    and "list_all truthy (page_fetches tr)"
  shows "subseq (map Click (posts (snd (step env w ident (sent, tr)))))
           (map Some (page_fetches (snd (step env w ident (sent, tr))))) \<and>
         list_all truthy (page_fetches (snd (step env w ident (sent, tr))))"
proof (cases "has_url w tr ident")
  case True
  show ?thesis
  proof (rule step_send [OF True, of env sent])
    fix name item tr'
    assume s: "step env w ident (sent, tr) = (Inr (sent + 1), tr')"
      and p: "page_fetches tr' = page_fetches tr @ [prop_of item ''url'']"
      and t: "truthy (prop_of item ''url'')"
      and n: "posts tr' = posts tr \<or>
         (\<exists>n. posts tr' = posts tr @ [n] \<and> Click n = Some (prop_of item ''url'') \<and>
              Title n = prop_of item ''title'')"
    from n have "subseq (map Click (posts tr')) (map Some (page_fetches tr'))"
    proof
      assume "posts tr' = posts tr"
      with assms(1) p show ?thesis
        by (simp add: subseq_rev_drop_many)
    next
      assume "\<exists>n. posts tr' = posts tr @ [n] \<and> Click n = Some (prop_of item ''url'') \<and>
              Title n = prop_of item ''title''"
      with assms(1) p show ?thesis
        by (auto simp: subseq_append)
    qed
    with s p t assms(2) show ?thesis
      by simp
  qed
next
  case False
  show ?thesis
  proof (cases "to_str ident")
    case None
    with assms show ?thesis
      by (simp add: step_unprintable)
  next
    case (Some name)
    obtain v tr1 where f: "fetchJSON w (item_url name) tr = (v, tr1)"
      by (cases "fetchJSON w (item_url name) tr")
    with step_skip [OF Some False, of env sent] fetchJSON_run [OF f] assms show ?thesis
      by simp
  qed
qed

lemma loop_clicks:
  assumes "subseq (map Click (posts (snd st))) (map Some (page_fetches (snd st)))"
    and "list_all truthy (page_fetches (snd st))"
  shows "subseq (map Click (posts (snd (loop env w idents st))))
           (map Some (page_fetches (snd (loop env w idents st)))) \<and>
         list_all truthy (page_fetches (snd (loop env w idents st)))"
  using assms
proof (induction idents arbitrary: st)
  case Nil
  then show ?case by simp
next
  case (Cons ident idents)
  obtain sent tr where st: "st = (sent, tr)"
    by (cases st)
  obtain r tr' where st': "step env w ident (sent, tr) = (r, tr')"
    by (cases "step env w ident (sent, tr)")
  from step_clicks [of tr env w ident sent] Cons.prems
  have c: "subseq (map Click (posts tr')) (map Some (page_fetches tr'))"
    and t: "list_all truthy (page_fetches tr')"
    by (simp_all add: st st')
  show ?case
  proof (cases r)
    case (Inl err)
    with c t show ?thesis
      by (simp add: st st')
  next
    case (Inr sent')
    with Cons.IH [of "(sent', tr')"] c t show ?thesis
      by (simp add: st st')
  qed
qed

lemma handler_clicks:
  "subseq (map Click (posts (snd (handler env w)))) (map Some (page_fetches (snd (handler env w)))) \<and>
   list_all truthy (page_fetches (snd (handler env w)))"
proof (cases "case listed w of Some (JArr ids) \<Rightarrow> False | _ \<Rightarrow> True")
  case True
  then show ?thesis
    by (simp add: handler_list_failure)
next
  case False
  then obtain ids where l: "listed w = Some (JArr ids)"
    by (auto split: option.splits jsval.splits)
  show ?thesis
    using loop_clicks [of "(0, snd (fetchJSON w topstories_url []))" env w
        "js_slice 0 (LIMIT env) ids"]
    by (auto simp: handler_listed [OF l] first_fetch split: prod.splits sum.splits)
qed

text \<open>Every story of the digest has a truthy url, which the run has scraped.\<close>

lemma hn_step_stories:
  assumes "hn_step w ident (stories, tr) = (Inr stories', tr')"
    and "map url stories = page_fetches tr" and "list_all truthy (page_fetches tr)"
  shows "map url stories' = page_fetches tr' \<and> list_all truthy (page_fetches tr')"
  using assms
  by (auto simp: hn_step_def hn_extractSummary_def
      split: prod.splits sum.splits if_splits option.splits
      dest!: hn_fetchJSON_then extractSummary_body_then)

lemma hn_loop_stories:
  assumes "hn_loop w idents (stories, tr) = (Inr stories', tr')"
    and "map url stories = page_fetches tr" and "list_all truthy (page_fetches tr)"
  shows "map url stories' = page_fetches tr' \<and> list_all truthy (page_fetches tr')"
  using assms
proof (induction idents arbitrary: stories tr)
  case Nil
  then show ?case by simp
next
  case (Cons ident idents)
  obtain r tr1 where s: "hn_step w ident (stories, tr) = (r, tr1)"
    by (cases "hn_step w ident (stories, tr)")
  with Cons.prems(1) obtain stories1 where r: "r = Inr stories1"
    by (cases r) simp_all
  from hn_step_stories [OF s [unfolded r] Cons.prems(2,3)]
  have "map url stories1 = page_fetches tr1" and "list_all truthy (page_fetches tr1)"
    by simp_all
  moreover from Cons.prems(1) s r have "hn_loop w idents (stories1, tr1) = (Inr stories', tr')"
    by simp
  ultimately show ?case
    by (rule Cons.IH [rotated])
qed

lemma hn_stories_urls:
  assumes "hn_stories w = (Inr stories, tr)"
  shows "map url stories = page_fetches tr \<and> list_all truthy (page_fetches tr)"
proof -
  from assms obtain ids topIds where
    "hn_loop w topIds ([], [Fetch (FetchJSON topstories_url)]) = (Inr stories, tr)"
    by (auto simp: hn_stories_def split: prod.splits sum.splits dest!: hn_fetchJSON_then)
  from hn_loop_stories [OF this] show ?thesis
    by simp
qed

text \<open>
  C6. A story whose metadata request yields no item, or an item without a url, is skipped.
  In that pass of the loop no page is scraped and nothing is sent; the per-story counter
  and the story array of the digest stay as they were (the digest handler may instead end
  the run, when the request itself fails, and so does either handler at an identifier that
  has no string form). Over a whole run, every notification of the per-story handler opens
  a truthy url that the run has scraped, and every story of the digest has a truthy url
  that the run has scraped.
\<close>

theorem skipped_without_url:
  assumes "\<not> has_url w tr ident"
  shows "fst (step env w ident (sent, tr)) =
           (if to_str ident = None then Inl TypeError else Inr sent) \<and>
         page_fetches (snd (step env w ident (sent, tr))) = page_fetches tr \<and>
         posts (snd (step env w ident (sent, tr))) = posts tr \<and>
         (case fst (hn_step w ident (stories, tr)) of
            Inl err \<Rightarrow> True
          | Inr stories' \<Rightarrow> stories' = stories) \<and>
         page_fetches (snd (hn_step w ident (stories, tr))) = page_fetches tr \<and>
         posts (snd (hn_step w ident (stories, tr))) = posts tr \<and>
         subseq (map Click (posts (snd (handler env w'))))
           (map Some (page_fetches (snd (handler env w')))) \<and>
         list_all truthy (page_fetches (snd (handler env w'))) \<and>
         (hn_stories w' = (Inr digested, tr') \<longrightarrow>
            map url digested = page_fetches tr' \<and> list_all truthy (page_fetches tr'))"
proof -
  have "fst (step env w ident (sent, tr)) =
           (if to_str ident = None then Inl TypeError else Inr sent) \<and>
         page_fetches (snd (step env w ident (sent, tr))) = page_fetches tr \<and>
         posts (snd (step env w ident (sent, tr))) = posts tr"
  proof (cases "to_str ident")
    case None
    then show ?thesis
      by (simp add: step_unprintable)
  next
    case (Some name)
    obtain v tr1 where f: "fetchJSON w (item_url name) tr = (v, tr1)"
      by (cases "fetchJSON w (item_url name) tr")
    with step_skip [OF Some assms, of env sent] fetchJSON_run [OF f] Some show ?thesis
      by simp
  qed
  then show ?thesis
    using hn_step_skip [OF assms, of stories] handler_clicks [of env w']
      hn_stories_urls [of w' digested tr']
    by simp
qed

theorem skipped_without_url_witness:
  "\<not> has_url world_mixed [Fetch (FetchJSON topstories_url)] (JNum 1) \<and>
   \<not> has_url world_mixed [Fetch (FetchJSON topstories_url)] (JNum 2) \<and>
   step Map.empty world_mixed (JNum 1) (0, [Fetch (FetchJSON topstories_url)]) =
     (Inr 0, [Fetch (FetchJSON topstories_url), Fetch (FetchJSON (item_url ''1''))]) \<and>
   fst (hn_step world_mixed (JNum 1) ([], [Fetch (FetchJSON topstories_url)])) = Inr [] \<and>
   page_fetches (snd (hn_step world_mixed (JNum 2) ([], [Fetch (FetchJSON topstories_url)]))) = [] \<and>
   page_fetches (snd (handler Map.empty world_mixed)) = [JStr ''http://example.org/''] \<and>
   map Click (posts (snd (handler Map.empty world_mixed))) = [Some (JStr ''http://example.org/'')]"
proof -
  have a: "\<not> has_url world_mixed [Fetch (FetchJSON topstories_url)] (JNum 1)"
    by code_simp
  have b: "\<not> has_url world_mixed [Fetch (FetchJSON topstories_url)] (JNum 2)"
    by code_simp
  have s: "step Map.empty world_mixed (JNum 1) (0, [Fetch (FetchJSON topstories_url)]) =
     (Inr 0, [Fetch (FetchJSON topstories_url), Fetch (FetchJSON (item_url ''1''))])"
    by code_simp
  have h: "fst (hn_step world_mixed (JNum 1) ([], [Fetch (FetchJSON topstories_url)])) = Inr []"
    by code_simp
  have p: "page_fetches (snd (handler Map.empty world_mixed)) = [JStr ''http://example.org/'']"
    by code_simp
  have c: "map Click (posts (snd (handler Map.empty world_mixed))) =
      [Some (JStr ''http://example.org/'')]"
    by code_simp
  note r = skipped_without_url [OF b, of Map.empty 0 "[]" world_mixed]
  from r have r1:
    "page_fetches (snd (hn_step world_mixed (JNum 2) ([], [Fetch (FetchJSON topstories_url)]))) = []"
    by simp
  show ?thesis
    by (intro conjI a b s h r1 p c)
qed

section \<open>Counting and delivery\<close>

lemma handler_posts_le:
  "length (posts (snd (handler env w))) \<le> length (page_fetches (snd (handler env w)))"
  using handler_clicks [of env w] list_emb_length [of "(=)" "map Click (posts (snd (handler env w)))"
      "map Some (page_fetches (snd (handler env w)))"]
  by simp

text \<open>
  C7, as amended. In the per-story handler, when the list request returns an array whose
  identifiers, up to the limit, all have a string form (as every number and every string
  has), the loop goes on to the next identifier after every pass, so the item of every
  identifier of the cut list is requested. The counter \<open>sent\<close> grows by one in every pass
  that reaches \<open>sendNotification\<close>, that is for every story whose metadata request gave an
  item with a url, whatever becomes of the notification and whether or not a summary was
  found; it stays as it is in a pass whose metadata request fails or yields an item without
  a url. Each counted pass scrapes one page and makes at most one POST, and the handler
  answers 200 with \<open>{ success: true, sent }\<close>, where \<open>sent\<close> is the number of counted
  passes.
\<close>

theorem sent_counts_attempts:
  assumes "listed w = Some (JArr ids)"
    and "those (map to_str (js_slice 0 (LIMIT env) ids)) = Some names"
  shows "json_fetches (snd (handler env w)) = topstories_url # map item_url names \<and>
         fst (handler env w) =
           Reply 200 (JObj [(''success'', JBool True),
                            (''sent'', JNum (of_nat (length (page_fetches (snd (handler env w))))))]) \<and>
         length (posts (snd (handler env w))) \<le> length (page_fetches (snd (handler env w))) \<and>
         (to_str ident = Some name \<longrightarrow>
            fst (step env w ident (sent, tr)) =
              Inr (if has_url w tr ident then sent + 1 else sent)) \<and>
         length (page_fetches (snd (step env w ident (sent, tr)))) =
           length (page_fetches tr) + (if has_url w tr ident then 1 else 0) \<and>
         length (posts (snd (step env w ident (sent, tr)))) \<le>
           length (posts tr) + (if has_url w tr ident then 1 else 0)"
proof -
  have p: "printed (js_slice 0 (LIMIT env) ids) = names"
    by (rule printed_those [OF assms(2)])
  have "length names = length (js_slice 0 (LIMIT env) ids)"
    by (rule those_length [OF assms(2)])
  then have a: "length (printed (js_slice 0 (LIMIT env) ids)) = length (js_slice 0 (LIMIT env) ids)"
    by (simp add: p)
  have "fst (step env w ident (sent, tr)) = Inr (if has_url w tr ident then sent + 1 else sent)"
    if "to_str ident = Some name"
    using step_result [of env w ident sent tr] that by simp
  then show ?thesis
    using handler_json_fetches [OF assms(1), of env] handler_sent [OF assms(1) a]
      handler_posts_le [of env w] step_pages [of env w ident sent tr]
      step_posts [of env w ident sent tr]
    by (simp add: p)
qed

theorem sent_counts_attempts_witness:
  "listed world_relay_down = Some (JArr [JNum 1, JNum 2]) \<and>
   those (map to_str (js_slice 0 (LIMIT Map.empty) [JNum 1, JNum 2])) = Some [''1'', ''2''] \<and>
   json_fetches (snd (handler Map.empty world_relay_down)) =
     [topstories_url, item_url ''1'', item_url ''2''] \<and>
   length (page_fetches (snd (handler Map.empty world_relay_down))) = 2 \<and>
   console (snd (handler Map.empty world_relay_down)) =
     [LogNotSent (JStr ''A story'') 500, LogNotSent (JStr ''A story'') 500] \<and>
   fst (handler Map.empty world_relay_down) =
     Reply 200 (JObj [(''success'', JBool True), (''sent'', JNum 2)])"
proof -
  have l: "listed world_relay_down = Some (JArr [JNum 1, JNum 2])"
    by code_simp
  have n: "those (map to_str (js_slice 0 (LIMIT Map.empty) [JNum 1, JNum 2])) = Some [''1'', ''2'']"
    by code_simp
  have p: "length (page_fetches (snd (handler Map.empty world_relay_down))) = 2"
    by code_simp
  have c: "console (snd (handler Map.empty world_relay_down)) =
     [LogNotSent (JStr ''A story'') 500, LogNotSent (JStr ''A story'') 500]"
    by code_simp
  note r = sent_counts_attempts [where env = Map.empty and w = world_relay_down, OF l n]
  from r have j: "json_fetches (snd (handler Map.empty world_relay_down)) =
     [topstories_url, item_url ''1'', item_url ''2'']"
    by simp
  from r have "fst (handler Map.empty world_relay_down) =
      Reply 200 (JObj [(''success'', JBool True),
        (''sent'', JNum (of_nat (length (page_fetches (snd (handler Map.empty world_relay_down))))))])"
    by blast
  then have s: "fst (handler Map.empty world_relay_down) =
      Reply 200 (JObj [(''success'', JBool True), (''sent'', JNum 2)])"
    by (simp add: p)
  show ?thesis
    by (intro conjI l n j p c s)
qed

text \<open>
  C7 as it is stated fails where it says that the counter also grows when the metadata
  request of the identifier failed: the pass then ends at \<open>continue\<close>, before \<open>sent++\<close>.
  Here the cut list has one identifier, its item request is rejected, and the run reports
  \<open>sent: 0\<close>.
\<close>

theorem sent_skips_failed_item:
  "listed world_item_down = Some (JArr [JNum 1]) \<and>
   js_slice 0 (LIMIT Map.empty) [JNum 1] = [JNum 1] \<and>
   fetched_json world_item_down [Fetch (FetchJSON topstories_url)] (item_url ''1'') = None \<and>
   handler Map.empty world_item_down =
     (Reply 200 (JObj [(''success'', JBool True), (''sent'', JNum 0)]),
      [Fetch (FetchJSON topstories_url), Fetch (FetchJSON (item_url ''1'')),
       Console (LogError NetworkError)])"
  by code_simp

text \<open>A story is counted even when \<open>sendNotification\<close> throws before its POST, the url of
  the item having no string form.\<close>

lemma handler_odd_url:
  "handler Map.empty world_odd_url =
     (Reply 200 (JObj [(''success'', JBool True), (''sent'', JNum 1)]),
      [Fetch (FetchJSON topstories_url), Fetch (FetchJSON (item_url ''1'')),
       Fetch (FetchPage (JObj [(''toString'', JNum 1)])), Console (LogSummary NetworkError),
       Console (LogError TypeError)])"
  by code_simp

text \<open>
  A response of the relay that is not a success does not end the run. In the per-story
  handler \<open>sendNotification\<close> logs it and returns (it throws instead when the title has no
  string form, which the loop catches); the pass counts the story, every later story with a
  url still gets its own pass, and the run answers 200 when every identifier has a string
  form. In the digest handler the run answers 200 with the number of stories whatever the
  status of the response is, and adds nothing to the run after the POST.
\<close>

lemma delivery_failure_not_fatal:
  "(story_body st = Some b \<and> w tr (story_post env st b) = Response status js page \<and>
    \<not> ok status \<and> to_str (title st) = Some t \<longrightarrow>
      sendNotification env w st tr =
        (Inr (), tr @ [Fetch (story_post env st b), Console (LogNotSent (title st) status)])) \<and>
   (has_url w tr ident \<longrightarrow>
      fst (step env w ident (sent, tr)) = Inr (sent + 1) \<and>
      length (page_fetches (snd (step env w ident (sent, tr)))) = length (page_fetches tr) + 1) \<and>
   (listed w = Some (JArr ids) \<and>
    those (map to_str (js_slice 0 (LIMIT env) ids)) = Some names \<longrightarrow>
      json_fetches (snd (handler env w)) = topstories_url # map item_url names \<and>
      fst (handler env w) =
        Reply 200 (JObj [(''success'', JBool True),
                         (''sent'', JNum (of_nat (length (page_fetches (snd (handler env w))))))])) \<and>
   (fst (hn_stories w) = Inr stories \<and> digest 0 stories = Some d \<and>
    w (snd (hn_stories w)) (digest_post env d) = Response status' js' page' \<longrightarrow>
      hn_handler env w =
        (Reply 200 (JObj [(''success'', JBool True), (''count'', JNum (of_nat (length stories)))]),
         snd (hn_stories w) @ [Fetch (digest_post env d)]))"
proof (intro conjI impI)
  assume "story_body st = Some b \<and> w tr (story_post env st b) = Response status js page \<and>
    \<not> ok status \<and> to_str (title st) = Some t"
  then show "sendNotification env w st tr =
      (Inr (), tr @ [Fetch (story_post env st b), Console (LogNotSent (title st) status)])"
    by (simp add: sendNotification_def)
next
  assume h: "has_url w tr ident"
  then have "to_str ident \<noteq> None"
    by (auto simp: has_url_def split: option.splits)
  with h show "fst (step env w ident (sent, tr)) = Inr (sent + 1)"
    using step_result [of env w ident sent tr] by auto
  from h show "length (page_fetches (snd (step env w ident (sent, tr)))) =
      length (page_fetches tr) + 1"
    by (simp add: step_pages)
next
  assume a: "listed w = Some (JArr ids) \<and>
    those (map to_str (js_slice 0 (LIMIT env) ids)) = Some names"
  then have l: "listed w = Some (JArr ids)"
    and n: "those (map to_str (js_slice 0 (LIMIT env) ids)) = Some names"
    by simp_all
  have p: "printed (js_slice 0 (LIMIT env) ids) = names"
    by (rule printed_those [OF n])
  have "length names = length (js_slice 0 (LIMIT env) ids)"
    by (rule those_length [OF n])
  then have e: "length (printed (js_slice 0 (LIMIT env) ids)) = length (js_slice 0 (LIMIT env) ids)"
    by (simp add: p)
  show "json_fetches (snd (handler env w)) = topstories_url # map item_url names"
    using handler_json_fetches [OF l, of env] by (simp add: p)
  show "fst (handler env w) =
      Reply 200 (JObj [(''success'', JBool True),
                       (''sent'', JNum (of_nat (length (page_fetches (snd (handler env w))))))])"
    by (rule handler_sent [OF l e])
next
  assume a: "fst (hn_stories w) = Inr stories \<and> digest 0 stories = Some d \<and>
    w (snd (hn_stories w)) (digest_post env d) = Response status' js' page'"
  then obtain tr1 where h: "hn_stories w = (Inr stories, tr1)"
    by (cases "hn_stories w") simp
  with a have "w tr1 (digest_post env d) = Response status' js' page'" and "digest 0 stories = Some d"
    by simp_all
  then show "hn_handler env w =
      (Reply 200 (JObj [(''success'', JBool True), (''count'', JNum (of_nat (length stories)))]),
       snd (hn_stories w) @ [Fetch (digest_post env d)])"
    by (simp add: hn_handler_def hn_try_def h)
qed

text \<open>
  C8. A delivery failure (a response of the relay that is not a success) is logged and does
  not end the run: the per-story handler goes on with the later stories, the digest handler
  still answers with success. The per-story file does all of this, and the digest handler
  of \<open>src/api/hn.js\<close> does answer with success, but it does not log the failure: it never
  reads the response of the relay, as \<open>sendNotification\<close> of the per-story file does. Here
  the relay answers 500 to the digest; the run has written nothing to the console and
  answers 200. On the same network the per-story handler logs each of its two failed
  deliveries.
\<close>

theorem hn_handler_relay_unlogged:
  "map (world_relay_down []) (map Post (posts (snd (hn_handler Map.empty world_relay_down)))) =
     [Response 500 None None] \<and>
   console (snd (hn_handler Map.empty world_relay_down)) = [] \<and>
   fst (hn_handler Map.empty world_relay_down) =
     Reply 200 (JObj [(''success'', JBool True), (''count'', JNum 2)]) \<and>
   console (snd (handler Map.empty world_relay_down)) =
     [LogNotSent (JStr ''A story'') 500, LogNotSent (JStr ''A story'') 500]"
  by code_simp

end
